theory Spec2Isabelle
  imports Main
begin

section \<open>Errors\<close>

text \<open>
  Every exception the code throws, and every undefined operation it can reach, is a value.
  \<open>TypeMismatch\<close> and \<open>MultipleMatch\<close> are the two \<open>std::range_error\<close>s thrown in
  ComponentImpl.H (lines 139 and 157/191); they carry the string the message is built from.
  \<open>EmptyVectorAccess\<close> is the read \<open>ret[0]\<close> of an empty \<open>std::vector\<close> (line 193) and
  \<open>NullDeref\<close> is \<open>operator->\<close> on a null \<open>std::shared_ptr\<close> (line 122): both are undefined
  behaviour in C++ and are kept as outcomes of their own.
\<close>

datatype error =
    TypeMismatch string
  | MultipleMatch string
  | NotFound string
  | Validation string
  | NameClash string
  | InitFailed string
  | EmptyVectorAccess
  | NullDeref
  | InvalidArgument
  | OutOfRange
  | Fatal

section \<open>Regular expressions of parameter declarations\<close>

text \<open>
  The only regex a declaration of Serial.H uses is \<open>^[5-8][NEO][12]$\<close>: anchors and bracket
  expressions. A bracket expression is a list of single characters and ranges.
\<close>

datatype cls_item = Ch char | Rng char char

datatype rx_node = AnchorBegin | AnchorEnd | Bracket "cls_item list"

type_synonym regex = "rx_node list"

fun in_item :: "char \<Rightarrow> cls_item \<Rightarrow> bool" where
  "in_item c (Ch d) = (c = d)"
| "in_item c (Rng lo hi) = ((of_char lo :: nat) \<le> of_char c \<and> (of_char c :: nat) \<le> of_char hi)"

text \<open>
  Modelled from the spec: the matcher of the regex library (boost::regex, not part of the
  repository). The whole string has to match; the flag says whether the position is the
  beginning of the string.
\<close>

fun rx_match :: "regex \<Rightarrow> bool \<Rightarrow> string \<Rightarrow> bool" where
  "rx_match [] b s = (s = [])"
| "rx_match (AnchorBegin # r) b s = (b \<and> rx_match r b s)"
| "rx_match (AnchorEnd # r) b s = (s = [] \<and> rx_match r b s)"
| "rx_match (Bracket items # r) b [] = False"
| "rx_match (Bracket items # r) b (c # s) = (list_ex (in_item c) items \<and> rx_match r False s)"

section \<open>Parameters\<close>

text \<open>
  A parameter value carries its static type \<open>T\<close> as its constructor, so that
  \<open>dynamic_cast<ParameterCore<T> *>\<close> succeeds exactly when the types agree.
\<close>

datatype pval = BoolV bool | IntV int | StrV string

datatype ptype = BoolT | IntT | StrT

fun vtype :: "pval \<Rightarrow> ptype" where
  "vtype (BoolV b) = BoolT"
| "vtype (IntV i) = IntT"
| "vtype (StrV s) = StrT"

text \<open>
  The change-callback is user code; it is modelled by the values it rejects
  (\<open>None\<close>: no callback registered).
\<close>

record parameter =
  pname :: string
  pvalue :: pval
  validValues :: "pval list option"
  pregex :: "regex option"
  pcallback :: "pval list option"

text \<open>
  Modelled from the spec: the three checks of \<open>ParameterCore<T>::set\<close> (ParameterImpl.H is
  not among the sources): membership in the set of valid values, the regex for string values,
  and the change-callback. A constraint that is not declared accepts every value.
\<close>

definition in_valid_set :: "parameter \<Rightarrow> pval \<Rightarrow> bool" where
  "in_valid_set p v = (case validValues p of None \<Rightarrow> True | Some vs \<Rightarrow> v \<in> set vs)"

definition regex_ok :: "parameter \<Rightarrow> pval \<Rightarrow> bool" where
  "regex_ok p v =
     (case pregex p of
        None \<Rightarrow> True
      | Some r \<Rightarrow> (case v of StrV s \<Rightarrow> rx_match r True s | _ \<Rightarrow> True))"

definition callback_ok :: "parameter \<Rightarrow> pval \<Rightarrow> bool" where
  "callback_ok p v = (case pcallback p of None \<Rightarrow> True | Some rejected \<Rightarrow> v \<notin> set rejected)"

text \<open>
  Modelled from the spec: \<open>ParameterCore<T>::set\<close> (ParameterImpl.H is not among the
  sources). The checks run in the order value-set membership, regex, change-callback; if one
  fails, a validation error is raised and the stored value is unchanged.
\<close>

definition param_set :: "pval \<Rightarrow> parameter \<Rightarrow> error option \<times> parameter" where
  "param_set v p =
     (if \<not> in_valid_set p v then (Some (Validation (pname p)), p)
      else if \<not> regex_ok p v then (Some (Validation (pname p)), p)
      else if \<not> callback_ok p v then (Some (Validation (pname p)), p)
      else (None, p\<lparr>pvalue := v\<rparr>))"

text \<open>Modelled from the spec: \<open>ParameterCore<T>::get\<close> returns the current value and never fails.\<close>

definition param_get :: "parameter \<Rightarrow> pval" where
  "param_get p = pvalue p"

section \<open>Components\<close>

text \<open>
  A Component owns its Parameters and its sub-Components (a vector of shared pointers, in
  insertion order). \<open>addr\<close> is the address of the object, the value \<open>shared_ptr::get()\<close>
  returns; it is what pointer comparisons see. \<open>preInitFails\<close> and \<open>postInitFails\<close> say
  whether the user hooks of the object throw.
\<close>

record cdata =
  addr :: nat
  itsInstanceName :: string
  itsParent :: "nat option"
  itsInitialized :: bool
  itsPath :: string
  itsParameterList :: "parameter list"
  preInitFails :: bool
  postInitFails :: bool

datatype component = Component (node: cdata) (itsSubComponents: "component list")

definition instanceName :: "component \<Rightarrow> string" where
  "instanceName c = itsInstanceName (node c)"

definition initialized :: "component \<Rightarrow> bool" where
  "initialized c = itsInitialized (node c)"

section \<open>Descriptor resolution\<close>

text \<open>
  Modelled from the spec: \<open>jevois::split\<close> on the separator of descriptors (Utils.H declares
  it, the body is not among the sources). A descriptor is \<open>segment (":" segment)*\<close>.
\<close>

fun split_colon :: "string \<Rightarrow> string list" where
  "split_colon [] = [[]]"
| "split_colon (c # cs) =
     (if c = CHR '':'' then [] # split_colon cs
      else (case split_colon cs of [] \<Rightarrow> [[c]] | seg # segs \<Rightarrow> (c # seg) # segs))"

text \<open>Modelled from the spec: a leading colon anchors to the current Component and is dropped.\<close>

definition parse_descriptor :: "string \<Rightarrow> string list" where
  "parse_descriptor d = (case d of c # cs \<Rightarrow> if c = CHR '':'' then split_colon cs else split_colon d
                                 | [] \<Rightarrow> split_colon d)"

text \<open>Modelled from the spec: a \<open>*\<close> segment matches every name, a literal matches exactly.\<close>

definition seg_matches :: "string \<Rightarrow> string \<Rightarrow> bool" where
  "seg_matches seg name = (seg = ''*'' \<or> seg = name)"

text \<open>
  Modelled from the spec: the resolved descriptor of a match is the path from the invoking
  Component, joined with colons (\<open>cam:fps\<close> for the parameter \<open>fps\<close> of the child \<open>cam\<close>).
\<close>

definition unroll :: "string \<Rightarrow> string \<Rightarrow> string" where
  "unroll pre name = (if pre = [] then name else pre @ '':'' @ name)"

text \<open>
  The per-match action of the source's lambdas: it receives the Parameter, the unrolled
  descriptor and the captured accumulator \<open>ret\<close>, and either throws or returns the updated
  Parameter and accumulator.
\<close>

type_synonym 'a action = "parameter \<Rightarrow> string \<Rightarrow> 'a \<Rightarrow> error + (parameter \<times> 'a)"

text \<open>
  Modelled from the spec: the visit of the Parameters of one Component, for the trailing
  segment of a descriptor. An exception of the action stops the walk and propagates; what
  was done before stays done.
\<close>

fun act_params :: "string \<Rightarrow> string \<Rightarrow> 'a action \<Rightarrow> parameter list \<Rightarrow> 'a
    \<Rightarrow> error option \<times> parameter list \<times> 'a" where
  "act_params seg pre doit [] acc = (None, [], acc)"
| "act_params seg pre doit (p # ps) acc =
     (if seg_matches seg (pname p) then
        (case doit p (unroll pre (pname p)) acc of
           Inl e \<Rightarrow> (Some e, p # ps, acc)
         | Inr (p', acc') \<Rightarrow>
             (case act_params seg pre doit ps acc' of
                (r, ps', acc'') \<Rightarrow> (r, p' # ps', acc'')))
      else
        (case act_params seg pre doit ps acc of
           (r, ps', acc') \<Rightarrow> (r, p # ps', acc')))"

text \<open>
  Modelled from the spec: the recursive walk of \<open>findParamAndActOnIt\<close> (Component.C is not
  among the sources). The trailing segment is matched against the Parameter names of the
  Component reached, every segment before it against the instance names of the
  sub-Components at that depth; the walk is depth-first, children in insertion order.
\<close>

fun walk :: "string list \<Rightarrow> string \<Rightarrow> 'a action \<Rightarrow> component \<Rightarrow> 'a
    \<Rightarrow> error option \<times> component \<times> 'a"
and walk_subs :: "string \<Rightarrow> string list \<Rightarrow> string \<Rightarrow> 'a action \<Rightarrow> component list \<Rightarrow> 'a
    \<Rightarrow> error option \<times> component list \<times> 'a" where
  "walk [] pre doit c acc = (None, c, acc)"
| "walk [seg] pre doit (Component d cs) acc =
     (case act_params seg pre doit (itsParameterList d) acc of
        (r, ps', acc') \<Rightarrow> (r, Component (d\<lparr>itsParameterList := ps'\<rparr>) cs, acc'))"
| "walk (seg # s2 # rest) pre doit (Component d cs) acc =
     (case walk_subs seg (s2 # rest) pre doit cs acc of
        (r, cs', acc') \<Rightarrow> (r, Component d cs', acc'))"
| "walk_subs seg rest pre doit [] acc = (None, [], acc)"
| "walk_subs seg rest pre doit (c # cs) acc =
     (if seg_matches seg (instanceName c) then
        (case walk rest (unroll pre (instanceName c)) doit c acc of
           (Some e, c', acc') \<Rightarrow> (Some e, c' # cs, acc')
         | (None, c', acc') \<Rightarrow>
             (case walk_subs seg rest pre doit cs acc' of
                (r, cs', acc'') \<Rightarrow> (r, c' # cs', acc'')))
      else
        (case walk_subs seg rest pre doit cs acc of
           (r, cs', acc') \<Rightarrow> (r, c # cs', acc')))"

text \<open>
  Modelled from the spec: \<open>findParamAndActOnIt(descriptor, doit, empty)\<close> (Component.C is
  not among the sources). It visits all matches under the invoking Component. Of the
  \<open>empty\<close> probe the spec says that it serves to short-circuit for a caller that wants
  first-match semantics; the callers of ComponentImpl.H collect every match (the
  multiple-match test of lines 157 and 191 needs them all), so the probe they pass
  (lines 145 and 179) stops nothing, and for \<open>setParamVal\<close> the spec says that a walk with
  no match is not an error: the caller is left with its empty list. What else the walk of
  Component.C does with the probe cannot be read from the sources; every statement below
  about a descriptor without a match holds for the walk as the spec describes it.
\<close>

definition findParamAndActOnIt :: "string \<Rightarrow> 'a action \<Rightarrow> ('a \<Rightarrow> bool) \<Rightarrow> component \<Rightarrow> 'a
    \<Rightarrow> error option \<times> component \<times> 'a" where
  "findParamAndActOnIt descriptor doit is_empty this acc =
     walk (parse_descriptor descriptor) [] doit this acc"

text \<open>
  Modelled from the spec: the resolved descriptors of the Parameters a descriptor matches
  under a Component, in tree-walk order. This is the notion of "match" the claims about
  zero or several matches refer to; it does not run any action.
\<close>

fun matching :: "string list \<Rightarrow> string \<Rightarrow> component \<Rightarrow> string list" where
  "matching [] pre c = []"
| "matching [seg] pre (Component d cs) =
     map (\<lambda>p. unroll pre (pname p)) (filter (\<lambda>p. seg_matches seg (pname p)) (itsParameterList d))"
| "matching (seg # s2 # rest) pre (Component d cs) =
     concat (map (\<lambda>c. if seg_matches seg (instanceName c)
                       then matching (s2 # rest) (unroll pre (instanceName c)) c else []) cs)"

definition matches :: "string \<Rightarrow> component \<Rightarrow> string list" where
  "matches descriptor this = matching (parse_descriptor descriptor) [] this"

section \<open>Parameter access by descriptor (ComponentImpl.H, lines 127 to 194)\<close>

text \<open>The lambda of \<open>setParamVal\<close>, lines 136 to 143.\<close>

definition set_action :: "pval \<Rightarrow> (string list) action" where
  "set_action val param unrolled ret =
     (if vtype (pvalue param) \<noteq> vtype val then Inl (TypeMismatch unrolled)
      else (case param_set val param of
              (Some e, p') \<Rightarrow> Inl e
            | (None, p') \<Rightarrow> Inr (p', ret @ [unrolled])))"

definition setParamVal :: "string \<Rightarrow> pval \<Rightarrow> component \<Rightarrow> (error + string list) \<times> component" where
  "setParamVal descriptor val this =
     (case findParamAndActOnIt descriptor (set_action val) (\<lambda>ret. ret = []) this [] of
        (Some e, this', ret) \<Rightarrow> (Inl e, this')
      | (None, this', ret) \<Rightarrow> (Inr ret, this'))"

definition setParamValUnique :: "string \<Rightarrow> pval \<Rightarrow> component \<Rightarrow> error option \<times> component" where
  "setParamValUnique descriptor val this =
     (case setParamVal descriptor val this of
        (Inl e, this') \<Rightarrow> (Some e, this')
      | (Inr ret, this') \<Rightarrow>
          (if length ret > 1 then (Some (MultipleMatch descriptor), this')
           else (None, this')))"

text \<open>The lambda of \<open>getParamVal\<close>, lines 171 to 177; \<open>T\<close> is the requested type.\<close>

definition get_action :: "ptype \<Rightarrow> ((string \<times> pval) list) action" where
  "get_action T param unrolled ret =
     (if vtype (pvalue param) \<noteq> T then Inl (TypeMismatch unrolled)
      else Inr (param, ret @ [(unrolled, param_get param)]))"

definition getParamVal :: "ptype \<Rightarrow> string \<Rightarrow> component \<Rightarrow> error + (string \<times> pval) list" where
  "getParamVal T descriptor this =
     (case findParamAndActOnIt descriptor (get_action T) (\<lambda>ret. ret = []) this [] of
        (Some e, this', ret) \<Rightarrow> Inl e
      | (None, this', ret) \<Rightarrow> Inr ret)"

text \<open>
  Line 193 reads \<open>ret[0].second\<close> with no check that \<open>ret\<close> has an element:
  on an empty vector that read is undefined.
\<close>

definition getParamValUnique :: "ptype \<Rightarrow> string \<Rightarrow> component \<Rightarrow> error + pval" where
  "getParamValUnique T descriptor this =
     (case getParamVal T descriptor this of
        Inl e \<Rightarrow> Inl e
      | Inr ret \<Rightarrow>
          (if length ret > 1 then Inl (MultipleMatch descriptor)
           else (case ret of [] \<Rightarrow> Inl EmptyVectorAccess | r # _ \<Rightarrow> Inr (snd r))))"

text \<open>
  Modelled from the spec: the two steps of \<open>matching\<close> on their own, the matches among the
  Parameters of one Component and the matches below a list of siblings.
\<close>

definition names_of :: "string \<Rightarrow> string \<Rightarrow> parameter list \<Rightarrow> string list" where
  "names_of seg pre ps =
     map (\<lambda>p. unroll pre (pname p)) (filter (\<lambda>p. seg_matches seg (pname p)) ps)"

definition sub_matching :: "string \<Rightarrow> string list \<Rightarrow> string \<Rightarrow> component list \<Rightarrow> string list" where
  "sub_matching seg rest pre cs =
     concat (map (\<lambda>c. if seg_matches seg (instanceName c)
                       then matching rest (unroll pre (instanceName c)) c else []) cs)"

section \<open>Lifecycle\<close>

text \<open>
  Modelled from the spec: \<open>uninit()\<close> (Component.C is not among the sources). From
  Initialized it runs \<open>preUninit\<close>, uninitializes the children in reverse insertion order, runs
  \<open>postUninit\<close> and clears the flag; errors are logged and do not stop the descent, so it
  never fails. The order of the visits leaves no mark on the resulting tree.
\<close>

fun uninit :: "component \<Rightarrow> component" where
  "uninit (Component d cs) =
     (if itsInitialized d
      then Component (d\<lparr>itsInitialized := False\<rparr>) (rev (map uninit (rev cs)))
      else Component d cs)"

text \<open>
  Modelled from the spec: \<open>init()\<close> (Component.C is not among the sources). From Constructed
  it runs \<open>preInit\<close>, initializes every sub-Component in insertion order, runs \<open>postInit\<close>
  and sets the flag. If a step fails, the children initialized so far are uninitialized in
  reverse order and the failure propagates. On an initialized Component it is a no-op.
\<close>

fun init :: "component \<Rightarrow> error option \<times> component"
and init_subs :: "component list \<Rightarrow> error option \<times> component list" where
  "init (Component d cs) =
     (if itsInitialized d then (None, Component d cs)
      else if preInitFails d then (Some (InitFailed (itsInstanceName d)), Component d cs)
      else (case init_subs cs of
              (Some e, cs') \<Rightarrow> (Some e, Component d cs')
            | (None, cs') \<Rightarrow>
                (if postInitFails d
                 then (Some (InitFailed (itsInstanceName d)), Component d (rev (map uninit (rev cs'))))
                 else (None, Component (d\<lparr>itsInitialized := True\<rparr>) cs'))))"
| "init_subs [] = (None, [])"
| "init_subs (c # cs) =
     (case init c of
        (Some e, c') \<Rightarrow> (Some e, c' # cs)
      | (None, c') \<Rightarrow>
          (case init_subs cs of
             (Some e, cs') \<Rightarrow> (Some e, uninit c' # cs')
           | (None, cs') \<Rightarrow> (None, c' # cs')))"

section \<open>Sub-component management (ComponentImpl.H, lines 28 to 123)\<close>

text \<open>
  Modelled from the spec: \<open>computeInstanceName(requested, classname)\<close> (Component.C is not
  among the sources). It returns \<open>requested\<close> if non-empty, else a deterministic default
  derived from the class name, and throws name-clash if the resulting name collides with an
  existing sibling. The spec does not say how the default is derived: it is the parameter
  \<open>dflt\<close>.
\<close>

definition computeInstanceName :: "(string \<Rightarrow> string) \<Rightarrow> string \<Rightarrow> string \<Rightarrow> component
    \<Rightarrow> error + string" where
  "computeInstanceName dflt instance classname this =
     (let inst = (if instance \<noteq> [] then instance else dflt classname)
      in if inst \<in> set (map instanceName (itsSubComponents this)) then Inl (NameClash inst)
         else Inr inst)"

text \<open>
  The template argument \<open>Comp\<close> and its constructor arguments: the class name
  (\<open>demangledName<Comp>()\<close>) and what the constructor builds.
\<close>

record comp_class =
  className :: string
  classParameters :: "parameter list"
  classSubComponents :: "component list"
  classPreInitFails :: bool
  classPostInitFails :: bool

text \<open>
  Modelled from the spec: \<open>absolutePath()\<close> joins the instance name of the Component with the
  path it has inherited from its parent, which is the cached \<open>itsPath\<close>; \<open>setPath\<close> overrides
  the cached value. The spec does not name the separator of the join: a slash stands for it.
\<close>

definition absolutePath :: "component \<Rightarrow> string" where
  "absolutePath c =
     (if itsPath (node c) = [] then instanceName c
      else itsPath (node c) @ ''/'' @ instanceName c)"

definition setPath :: "string \<Rightarrow> component \<Rightarrow> component" where
  "setPath p c = Component ((node c)\<lparr>itsPath := p\<rparr>) (itsSubComponents c)"

definition setParent :: "nat option \<Rightarrow> component \<Rightarrow> component" where
  "setParent q c = Component ((node c)\<lparr>itsParent := q\<rparr>) (itsSubComponents c)"

text \<open>
  Modelled from the spec: \<open>new Comp(name, args...)\<close>. A Component is constructed with an
  instance name, in state Constructed, with no parent; \<open>a\<close> is the address \<open>new\<close> returns.
  The sub-Components its constructor adds have it as their parent.
\<close>

definition construct :: "comp_class \<Rightarrow> string \<Rightarrow> nat \<Rightarrow> component" where
  "construct cls name a =
     Component \<lparr>addr = a, itsInstanceName = name, itsParent = None, itsInitialized = False,
                itsPath = [], itsParameterList = classParameters cls,
                preInitFails = classPreInitFails cls, postInitFails = classPostInitFails cls\<rparr>
               (map (setParent (Some a)) (classSubComponents cls))"

definition push_back :: "component \<Rightarrow> component \<Rightarrow> component" where
  "push_back sub this = Component (node this) (itsSubComponents this @ [sub])"

text \<open>
  \<open>addSubComponent\<close>, lines 28 to 58. \<open>computeInstanceName\<close> is evaluated before the object is
  created (line 43), so an exception of it leaves \<open>this\<close> as it was. The child is shared
  between \<open>subComp\<close> and the vector, so the vector sees the parent pointer, the path and the
  initialization done after \<open>push_back\<close>; an exception of \<open>init\<close> (line 55) propagates with
  the child attached. The result is the returned pointer and the new state of \<open>this\<close>.
\<close>

definition addSubComponent :: "(string \<Rightarrow> string) \<Rightarrow> comp_class \<Rightarrow> string \<Rightarrow> nat \<Rightarrow> component
    \<Rightarrow> (error + nat) \<times> component" where
  "addSubComponent dflt cls instance a this =
     (case computeInstanceName dflt instance (className cls) this of
        Inl e \<Rightarrow> (Inl e, this)
      | Inr name \<Rightarrow>
          (let subComp = construct cls name a;
               subComp = setParent (Some (addr (node this))) subComp;
               subComp = setPath (absolutePath this) subComp
           in if initialized this then
                (case init subComp of
                   (Some e, subComp') \<Rightarrow> (Inl e, push_back subComp' this)
                 | (None, subComp') \<Rightarrow> (Inr a, push_back subComp' this))
              else (Inr a, push_back subComp this)))"

text \<open>
  What a call of \<open>removeSubComponent\<close> can see and change: the Component it is invoked on,
  the caller's shared pointer (passed by reference; \<open>None\<close> is the null pointer) and the
  sequence of effects so far.
\<close>

datatype event = LogError string | HandleReset | Uninit nat | Erase nat

record world =
  comp :: component
  component_ptr :: "component option"
  trace :: "event list"

text \<open>
  The loop of lines 110 and 111: the position of the first child whose address is the one the
  handle holds. The children are never null; the handle may be.
\<close>

fun find_by_ptr :: "nat option \<Rightarrow> component list \<Rightarrow> nat option" where
  "find_by_ptr p [] = None"
| "find_by_ptr p (c # cs) =
     (if Some (addr (node c)) = p then Some 0 else map_option Suc (find_by_ptr p cs))"

text \<open>
  Modelled from the spec: \<open>doRemoveSubComponent\<close> (Component.C is not among the sources)
  triggers the graceful uninit of the child at the iterator and removes it from the list.
\<close>

definition doRemoveSubComponent :: "nat \<Rightarrow> string \<Rightarrow> world \<Rightarrow> world" where
  "doRemoveSubComponent i displayname w =
     (let cs = itsSubComponents (comp w) in
      case drop i cs of
        [] \<Rightarrow> w
      | c # after \<Rightarrow>
          w\<lparr>comp := Component (node (comp w)) (take i cs @ after),
            trace := trace w @ (if initialized c then [Uninit (addr (node c))] else [])
                             @ [Erase (addr (node c))]\<rparr>)"

text \<open>
  \<open>removeSubComponent\<close>, lines 101 to 123. On the found path the caller's pointer is reset
  (line 115) and then the child is removed (line 118). On the other path the log message is
  built from \<open>component->instanceName()\<close> (line 122), which dereferences the handle.
\<close>

definition removeSubComponent :: "world \<Rightarrow> error option \<times> world" where
  "removeSubComponent w =
     (case find_by_ptr (map_option (\<lambda>h. addr (node h)) (component_ptr w))
                       (itsSubComponents (comp w)) of
        Some i \<Rightarrow>
          (None, doRemoveSubComponent i ''SubComponent''
                   (w\<lparr>component_ptr := None, trace := trace w @ [HandleReset]\<rparr>))
      | None \<Rightarrow>
          (case component_ptr w of
             None \<Rightarrow> (Some NullDeref, w)
           | Some h \<Rightarrow>
               (None, w\<lparr>trace := trace w @
                  [LogError (''SubComponent ['' @ instanceName h @ ''] not found. Ignored.'')]\<rparr>)))"

section \<open>String conversion (Utils.H, lines 82 to 108)\<close>

text \<open>
  A built-in integral type is given by its signedness and its width in bits. \<open>bool\<close> is
  \<open>Unsigned 1\<close>; the character types \<open>char\<close>, \<open>signed char\<close> and \<open>unsigned char\<close> are the
  types of width 8; \<open>short\<close>, \<open>int\<close>, \<open>long\<close>, \<open>long long\<close> and their unsigned counterparts
  have width 16, 32 or 64 (which of them \<open>long\<close> has depends on the platform).
\<close>

datatype integral = Signed nat | Unsigned nat

fun width :: "integral \<Rightarrow> nat" where
  "width (Signed w) = w"
| "width (Unsigned w) = w"

definition is_char_type :: "integral \<Rightarrow> bool" where
  "is_char_type T = (width T = 8)"

definition is_integer_type :: "integral \<Rightarrow> bool" where
  "is_integer_type T = (T = Unsigned 1 \<or> width T = 16 \<or> width T = 32 \<or> width T = 64)"

fun type_min :: "integral \<Rightarrow> int" where
  "type_min (Signed w) = - (2 ^ (w - 1))"
| "type_min (Unsigned w) = 0"

fun type_max :: "integral \<Rightarrow> int" where
  "type_max (Signed w) = 2 ^ (w - 1) - 1"
| "type_max (Unsigned w) = 2 ^ w - 1"

definition LLONG_MIN :: int where
  "LLONG_MIN = - (2 ^ 63)"

definition LLONG_MAX :: int where
  "LLONG_MAX = 2 ^ 63 - 1"

definition digit_char :: "nat \<Rightarrow> char" where
  "digit_char d = char_of (48 + d)"

text \<open>
  The decimal numeral of an integer, with a minus sign for negative values and no leading
  zero: what the streaming operator writes for \<open>bool\<close> and for the integer types.
\<close>

fun to_dec :: "nat \<Rightarrow> string" where
  "to_dec n = (if n < 10 then [digit_char n] else to_dec (n div 10) @ [digit_char (n mod 10)])"

declare to_dec.simps [simp del]

definition decimal :: "int \<Rightarrow> string" where
  "decimal v = (if v < 0 then CHR ''-'' # to_dec (nat (- v)) else to_dec (nat v))"

text \<open>
  Modelled from the spec: \<open>to_string\<close> (UtilsImpl.H is not among the sources) writes the value
  with the streaming operator of its type, as the documentation in Utils.H says (lines 101
  to 104). For a character type the operator writes the character itself, the byte with
  the value's code; for \<open>bool\<close> and the integer types it writes the decimal numeral.
\<close>

definition to_string :: "integral \<Rightarrow> int \<Rightarrow> string" where
  "to_string T v = (if is_char_type T then [char_of v] else decimal v)"

text \<open>
  Modelled from the spec: \<open>to_string\<close> for \<open>double\<close>, on the doubles whose value is an integer
  (every integer up to \<open>2^53\<close> in magnitude is one). The streaming operator writes with the
  defaults of the stream, the general format with 6 significant digits: a value of up to
  six digits is written as its numeral; a longer one as mantissa and exponent, the mantissa
  rounded to six digits (to nearest, ties to even) and written without trailing zeros.
\<close>

definition round_sig6 :: "nat \<Rightarrow> nat \<times> nat" where
  "round_sig6 n =
     (let len = length (to_dec n);
          scale = 10 ^ (len - 6);
          q = n div scale;
          r = n mod scale;
          m = (if scale < 2 * r \<or> (2 * r = scale \<and> odd q) then q + 1 else q)
      in if m = 1000000 then (100000, len) else (m, len - 1))"

definition strip_zeros :: "string \<Rightarrow> string" where
  "strip_zeros s = rev (dropWhile (\<lambda>c. c = CHR ''0'') (rev s))"

definition to_string_double :: "int \<Rightarrow> string" where
  "to_string_double v =
     (let n = nat \<bar>v\<bar>;
          sign = (if v < 0 then ''-'' else [])
      in if n < 1000000 then sign @ to_dec n
         else
           (case round_sig6 n of
              (m, x) \<Rightarrow>
                (case to_dec m of
                   [] \<Rightarrow> []
                 | d # ds \<Rightarrow>
                     sign @ [d]
                     @ (if strip_zeros ds = [] then [] else CHR ''.'' # strip_zeros ds)
                     @ ''e+''
                     @ (if x < 10 then CHR ''0'' # to_dec x else to_dec x))))"

text \<open>
  The value of a digit in bases up to 16, the digits of a base, white space as \<open>isspace\<close>
  sees it, and the number a run of digits denotes.
\<close>

definition digit_val :: "char \<Rightarrow> nat option" where
  "digit_val c =
     (let n = (of_char c :: nat) in
      if 48 \<le> n \<and> n \<le> 57 then Some (n - 48)
      else if 97 \<le> n \<and> n \<le> 102 then Some (n - 87)
      else if 65 \<le> n \<and> n \<le> 70 then Some (n - 55)
      else None)"

definition is_digit :: "nat \<Rightarrow> char \<Rightarrow> bool" where
  "is_digit base c = (case digit_val c of None \<Rightarrow> False | Some d \<Rightarrow> d < base)"

definition digit_of :: "char \<Rightarrow> nat" where
  "digit_of c = (case digit_val c of None \<Rightarrow> 0 | Some d \<Rightarrow> d)"

definition isspace :: "char \<Rightarrow> bool" where
  "isspace c = (let n = (of_char c :: nat) in n = 32 \<or> (9 \<le> n \<and> n \<le> 13))"

definition digits_value :: "nat \<Rightarrow> string \<Rightarrow> nat" where
  "digits_value base ds = foldl (\<lambda>a c. a * base + digit_of c) 0 ds"

text \<open>
  Modelled from the spec: \<open>std::stoll(str, nullptr, 0)\<close>, the library function the
  documentation of \<open>from_string\<close> names (Utils.H, lines 85 and 96): leading white space is skipped, a sign is optional, the prefix
  \<open>0x\<close> selects base 16 and the prefix \<open>0\<close> base 8, the longest run of digits is converted
  and what follows is ignored. No digit at all is \<open>std::invalid_argument\<close>; a value outside
  \<open>long long\<close> is \<open>std::out_of_range\<close>.
\<close>

definition strip_sign :: "string \<Rightarrow> bool \<times> string" where
  "strip_sign s =
     (case s of
        [] \<Rightarrow> (False, [])
      | c # r \<Rightarrow> if c = CHR ''-'' then (True, r) else if c = CHR ''+'' then (False, r)
                 else (False, s))"

definition detect_base :: "string \<Rightarrow> nat \<times> string" where
  "detect_base s =
     (case s of
        z # x # h # r \<Rightarrow>
          if z = CHR ''0'' \<and> (x = CHR ''x'' \<or> x = CHR ''X'') \<and> is_digit 16 h then (16, h # r)
          else if z = CHR ''0'' then (8, s)
          else (10, s)
      | z # r \<Rightarrow> if z = CHR ''0'' then (8, s) else (10, s)
      | [] \<Rightarrow> (10, s))"

definition stoll :: "string \<Rightarrow> error + int" where
  "stoll str =
     (case strip_sign (dropWhile isspace str) of
        (neg, s) \<Rightarrow>
          (case detect_base s of
             (base, t) \<Rightarrow>
               (let ds = takeWhile (is_digit base) t in
                if ds = [] then Inl InvalidArgument
                else
                  (let n = int (digits_value base ds);
                       v = (if neg then - n else n)
                   in if v < LLONG_MIN \<or> LLONG_MAX < v then Inl OutOfRange else Inr v))))"

text \<open>
  Modelled from the spec: \<open>clamped_convert\<close> (declared in Utils.H, line 108; UtilsImpl.H is
  not among the sources), from \<open>long long\<close> to the integral type \<open>T\<close>: a value outside the
  range of \<open>T\<close> becomes the nearest bound.
\<close>

definition clamped_convert :: "integral \<Rightarrow> int \<Rightarrow> int" where
  "clamped_convert T x = max (type_min T) (min (type_max T) x)"

text \<open>
  Modelled from the spec: \<open>from_string\<close> for integral types (UtilsImpl.H is not among the
  sources) parses with the widest signed integer and converts into the target type with
  clamping.
\<close>

definition from_string :: "integral \<Rightarrow> string \<Rightarrow> error + int" where
  "from_string T str = (case stoll str of Inl e \<Rightarrow> Inl e | Inr x \<Rightarrow> Inr (clamped_convert T x))"

section \<open>Serial (Serial.H)\<close>

text \<open>The two enums of Serial.H, lines 56 and 66.\<close>

datatype LineStyle = LF | CR | CRLF | Zero | Sloppy

datatype TerminalMode = Plain | VT100

text \<open>
  The declarations of the two enums, \<open>JEVOIS_DEFINE_ENUM_CLASS(LineStyle, (LF) (CR) (CRLF)
  (Zero) (Sloppy))\<close> and \<open>JEVOIS_DEFINE_ENUM_CLASS(TerminalMode, (Plain) (VT100))\<close>: each
  value with the name it is declared under.
\<close>

definition LineStyle_decl :: "(LineStyle \<times> string) list" where
  "LineStyle_decl =
     [(LF, ''LF''), (CR, ''CR''), (CRLF, ''CRLF''), (Zero, ''Zero''), (Sloppy, ''Sloppy'')]"

definition TerminalMode_decl :: "(TerminalMode \<times> string) list" where
  "TerminalMode_decl = [(Plain, ''Plain''), (VT100, ''VT100'')]"

text \<open>
  Modelled from the spec: \<open>to_string\<close> for a declared enum. A non-integral type goes through
  its textual streaming form; the streaming operators of an enum come from the macro
  \<open>JEVOIS_DEFINE_ENUM_CLASS\<close> (Enum.H is not among the sources), and the text of a value is
  the name it is declared under, the text by which the spec and the description of
  \<open>serial::linestyle\<close> (Serial.H, lines 59 to 62) refer to the values.
\<close>

definition to_string_enum :: "('a \<times> string) list \<Rightarrow> 'a \<Rightarrow> string" where
  "to_string_enum decl v = (case map_of decl v of None \<Rightarrow> [] | Some name \<Rightarrow> name)"

text \<open>
  Modelled from the spec: \<open>from_string\<close> for a declared enum (non-integral: it uses the
  streaming operator of the type, Utils.H, lines 90 to 93) reads a value by looking the text
  up among the declared names, in the order of the declaration; a text that is no declared
  name is an error.
\<close>

definition from_string_enum :: "('a \<times> string) list \<Rightarrow> string \<Rightarrow> error + 'a" where
  "from_string_enum decl s =
     (case map_of (map (\<lambda>(v, name). (name, v)) decl) s of
        None \<Rightarrow> Inl InvalidArgument
      | Some v \<Rightarrow> Inr v)"

text \<open>The declaration of \<open>serial::format\<close>, lines 44 and 45: default and regex.\<close>

definition format_regex :: regex where
  "format_regex =
     [AnchorBegin, Bracket [Rng (CHR ''5'') (CHR ''8'')],
      Bracket [Ch (CHR ''N''), Ch (CHR ''E''), Ch (CHR ''O'')],
      Bracket [Ch (CHR ''1''), Ch (CHR ''2'')], AnchorEnd]"

definition serial_format :: parameter where
  "serial_format =
     \<lparr>pname = ''format'', pvalue = StrV ''8N1'', validValues = None,
      pregex = Some format_regex, pcallback = None\<rparr>"

text \<open>
  Modelled from the spec: the three-character strings \<open>DPS\<close> with data bits \<open>D\<close> from 5 to 8,
  parity \<open>P\<close> one of N, E, O and stop bits \<open>S\<close> 1 or 2.
\<close>

definition format_DPS :: "string \<Rightarrow> bool" where
  "format_DPS s =
     (case s of
        [d, p, t] \<Rightarrow> d \<in> set ''5678'' \<and> p \<in> set ''NEO'' \<and> t \<in> set ''12''
      | _ \<Rightarrow> False)"

text \<open>
  Modelled from the spec: the output terminator of each line style (Serial.C is not among
  the sources; the description of \<open>serial::linestyle\<close>, lines 59 to 62, says the same).
\<close>

fun terminator :: "LineStyle \<Rightarrow> string" where
  "terminator LF = [CHR 0x0A]"
| "terminator CR = [CHR 0x0D]"
| "terminator CRLF = [CHR 0x0D, CHR 0x0A]"
| "terminator Zero = [CHR 0x00]"
| "terminator Sloppy = [CHR 0x0D, CHR 0x0A]"

text \<open>
  The port as \<open>writeString\<close> sees it: the value of the \<open>linestyle\<close> parameter, the bytes the
  device has received, and how many bytes the device takes at each of the coming calls of
  the system's write (a device that takes no more calls has failed).
\<close>

record serial =
  linestyle :: LineStyle
  emitted :: string
  accepts :: "nat list"

text \<open>
  Modelled from the spec: \<open>Serial::write\<close> (Serial.C is not among the sources). Partial
  writes are retried until completion or fatal error. (\<open>write\<close> is a keyword here, hence
  the name \<open>write_bytes\<close>.)
\<close>

fun write_all :: "string \<Rightarrow> serial \<Rightarrow> nat list \<Rightarrow> error option \<times> serial" where
  "write_all [] s sched = (None, s\<lparr>accepts := sched\<rparr>)"
| "write_all (b # bs) s [] = (Some Fatal, s\<lparr>accepts := []\<rparr>)"
| "write_all (b # bs) s (n # sched) =
     write_all (drop n (b # bs)) (s\<lparr>emitted := emitted s @ take n (b # bs)\<rparr>) sched"

definition write_bytes :: "string \<Rightarrow> serial \<Rightarrow> error option \<times> serial" where
  "write_bytes buffer s = write_all buffer s (accepts s)"

text \<open>
  Modelled from the spec: \<open>Serial::writeString\<close> (declared at line 109, Serial.C is not among
  the sources) appends the configured terminator to the caller's string and writes the
  whole buffer.
\<close>

definition writeString :: "string \<Rightarrow> serial \<Rightarrow> error option \<times> serial" where
  "writeString str s = write_bytes (str @ terminator (linestyle s)) s"

section \<open>Concrete states\<close>

text \<open>The states the theorems below are evaluated on.\<close>

definition mkparam :: "string \<Rightarrow> pval \<Rightarrow> parameter" where
  "mkparam n v = \<lparr>pname = n, pvalue = v, validValues = None, pregex = None, pcallback = None\<rparr>"

definition mkcomp :: "nat \<Rightarrow> string \<Rightarrow> bool \<Rightarrow> parameter list \<Rightarrow> component list \<Rightarrow> component" where
  "mkcomp a n i ps cs =
     Component \<lparr>addr = a, itsInstanceName = n, itsParent = None, itsInitialized = i,
                itsPath = [], itsParameterList = ps, preInitFails = False,
                postInitFails = False\<rparr> cs"

text \<open>A root with the children \<open>a\<close> and \<open>b\<close>, each owning \<open>log = true\<close>.\<close>

definition two_logs :: component where
  "two_logs =
     mkcomp 100 ''root'' False []
       [mkcomp 101 ''a'' False [mkparam ''log'' (BoolV True)] [],
        mkcomp 102 ''b'' False [mkparam ''log'' (BoolV True)] []]"

text \<open>The same tree with both \<open>log\<close> parameters set to \<open>false\<close>.\<close>

definition two_logs_off :: component where
  "two_logs_off =
     mkcomp 100 ''root'' False []
       [mkcomp 101 ''a'' False [mkparam ''log'' (BoolV False)] [],
        mkcomp 102 ''b'' False [mkparam ''log'' (BoolV False)] []]"

text \<open>An initialized root with one initialized child, and a class to instantiate.\<close>

definition running_root :: component where
  "running_root = mkcomp 100 ''root'' True [] [mkcomp 101 ''cam'' True [] []]"

definition proc_class :: comp_class where
  "proc_class =
     \<lparr>className = ''Proc'', classParameters = [mkparam ''fps'' (IntV 30)],
      classSubComponents = [mkcomp 201 ''inner'' False [] []],
      classPreInitFails = False, classPostInitFails = False\<rparr>"

text \<open>
  Three callers of \<open>removeSubComponent\<close> on \<open>running_root\<close>: one holds the child \<open>cam\<close>,
  one holds another object that is also named \<open>cam\<close>, one holds the null pointer.
\<close>

definition holds_child :: world where
  "holds_child =
     \<lparr>comp = running_root, component_ptr = Some (mkcomp 101 ''cam'' True [] []), trace = []\<rparr>"

definition holds_namesake :: world where
  "holds_namesake =
     \<lparr>comp = running_root, component_ptr = Some (mkcomp 300 ''cam'' False [] []), trace = []\<rparr>"

definition holds_null :: world where
  "holds_null = \<lparr>comp = running_root, component_ptr = None, trace = []\<rparr>"

text \<open>A port with line style CRLF whose device takes one byte, none, then the rest.\<close>

definition crlf_port :: serial where
  "crlf_port = \<lparr>linestyle = CRLF, emitted = [], accepts = [1, 0, 8]\<rparr>"

section \<open>Facts about the walk\<close>

lemma param_set_ok: "param_set v p = (None, p') \<Longrightarrow> p' = p\<lparr>pvalue := v\<rparr>"
  by (auto simp: param_set_def split: if_splits)

lemma param_set_err: "param_set v p = (Some e, p') \<Longrightarrow> p' = p"
  by (auto simp: param_set_def split: if_splits)

lemma set_action_ok:
  "set_action v p u ret = Inr (p', ret') \<Longrightarrow> p' = p\<lparr>pvalue := v\<rparr> \<and> ret' = ret @ [u]"
  by (auto simp: set_action_def dest: param_set_ok split: if_splits prod.splits option.splits)

lemma get_after_set:
  "get_action (vtype v) (p\<lparr>pvalue := v\<rparr>) u acc = Inr (p\<lparr>pvalue := v\<rparr>, acc @ [(u, v)])"
  by (simp add: get_action_def param_get_def)

lemma act_params_set_get:
  "act_params seg pre (set_action v) ps acc = (None, ps', acc') \<Longrightarrow>
     acc' = acc @ names_of seg pre ps \<and>
     act_params seg pre (get_action (vtype v)) ps' acc2 =
       (None, ps', acc2 @ map (\<lambda>u. (u, v)) (names_of seg pre ps))"
proof (induction ps arbitrary: acc ps' acc' acc2)
  case Nil
  then show ?case by (simp add: names_of_def)
next
  case (Cons p ps)
  show ?case
  proof (cases "seg_matches seg (pname p)")
    case True
    from Cons.prems True obtain p1 a1 where
      s: "set_action v p (unroll pre (pname p)) acc = Inr (p1, a1)"
      by (auto split: sum.splits)
    from set_action_ok[OF s] have p1: "p1 = p\<lparr>pvalue := v\<rparr>" and a1: "a1 = acc @ [unroll pre (pname p)]"
      by simp_all
    from Cons.prems True s obtain ps1 where
      r: "act_params seg pre (set_action v) ps a1 = (None, ps1, acc')" and ps': "ps' = p1 # ps1"
      by (auto split: prod.splits)
    from Cons.IH[OF r, of "acc2 @ [(unroll pre (pname p), v)]"] True p1 a1 ps'
    show ?thesis
      by (simp add: names_of_def get_after_set)
  next
    case False
    from Cons.prems False obtain ps1 where
      r: "act_params seg pre (set_action v) ps acc = (None, ps1, acc')" and ps': "ps' = p # ps1"
      by (auto split: prod.splits)
    from Cons.IH[OF r, of acc2] False ps' show ?thesis
      by (simp add: names_of_def)
  qed
qed

lemma walk_instanceName:
  "walk segs pre doit c acc = (r, c', acc') \<Longrightarrow> instanceName c' = instanceName c"
proof (cases c)
  case (Component d cs)
  assume w: "walk segs pre doit c acc = (r, c', acc')"
  show ?thesis
  proof (cases segs)
    case Nil
    with w show ?thesis by simp
  next
    case (Cons s ss)
    show ?thesis
    proof (cases ss)
      case Nil
      with w Cons Component show ?thesis
        by (auto simp: instanceName_def split: prod.splits)
    next
      case (Cons t ts)
      with w \<open>segs = s # ss\<close> Component show ?thesis
        by (auto simp: instanceName_def split: prod.splits)
    qed
  qed
qed

lemma walk_set_get:
  "walk segs pre (set_action v) c acc = (None, c', acc') \<Longrightarrow>
     acc' = acc @ matching segs pre c \<and>
     (\<forall>acc2. walk segs pre (get_action (vtype v)) c' acc2 =
       (None, c', acc2 @ map (\<lambda>u. (u, v)) (matching segs pre c)))"
  "walk_subs seg rest pre (set_action v) cs acc = (None, cs', acc') \<Longrightarrow>
     acc' = acc @ sub_matching seg rest pre cs \<and>
     (\<forall>acc2. walk_subs seg rest pre (get_action (vtype v)) cs' acc2 =
       (None, cs', acc2 @ map (\<lambda>u. (u, v)) (sub_matching seg rest pre cs)))"
proof (induction segs pre "set_action v" c acc and seg rest pre "set_action v" cs acc
       arbitrary: c' acc' and cs' acc' rule: walk_walk_subs.induct)
  case (1 pre c acc)
  then show ?case by simp
next
  case (2 seg pre d cs acc)
  then obtain ps' where
    a: "act_params seg pre (set_action v) (itsParameterList d) acc = (None, ps', acc')"
    and c': "c' = Component (d\<lparr>itsParameterList := ps'\<rparr>) cs"
    by (auto split: prod.splits)
  from act_params_set_get[OF a] c' show ?case
    by (simp add: names_of_def)
next
  case (3 seg s2 rest pre d cs acc)
  then obtain cs1 where
    a: "walk_subs seg (s2 # rest) pre (set_action v) cs acc = (None, cs1, acc')"
    and c': "c' = Component d cs1"
    by (auto split: prod.splits)
  from "3.hyps"[OF a] c' show ?case
    by (simp add: sub_matching_def)
next
  case (4 seg rest pre acc)
  then show ?case by (simp add: sub_matching_def)
next
  case (5 seg rest pre c cs acc)
  show ?case
  proof (cases "seg_matches seg (instanceName c)")
    case True
    from "5.prems" True obtain c1 a1 cs1 where
      w: "walk rest (unroll pre (instanceName c)) (set_action v) c acc = (None, c1, a1)"
      and r: "walk_subs seg rest pre (set_action v) cs a1 = (None, cs1, acc')"
      and cs': "cs' = c1 # cs1"
      by (auto split: prod.splits option.splits)
    note n = walk_instanceName[OF w]
    from "5.hyps"(1)[OF True w] "5.hyps"(2)[OF True _ _ _ r] w
    show ?thesis using True n cs'
      by (simp add: sub_matching_def)
  next
    case False
    from "5.prems" False obtain cs1 where
      r: "walk_subs seg rest pre (set_action v) cs acc = (None, cs1, acc')"
      and cs': "cs' = c # cs1"
      by (auto split: prod.splits)
    from "5.hyps"(3)[OF False r] False cs' show ?thesis
      by (simp add: sub_matching_def)
  qed
qed

lemma act_params_nomatch:
  "names_of seg pre ps = [] \<Longrightarrow> act_params seg pre doit ps acc = (None, ps, acc)"
  by (induction ps) (auto simp: names_of_def split: if_splits)

lemma walk_nomatch:
  "matching segs pre c = [] \<Longrightarrow> walk segs pre doit c acc = (None, c, acc)"
  "sub_matching seg rest pre cs = [] \<Longrightarrow> walk_subs seg rest pre doit cs acc = (None, cs, acc)"
proof (induction segs pre doit c acc and seg rest pre doit cs acc rule: walk_walk_subs.induct)
  case (1 pre doit c acc)
  then show ?case by simp
next
  case (2 seg pre doit d cs acc)
  then have "names_of seg pre (itsParameterList d) = []"
    by (simp add: names_of_def)
  then show ?case by (simp add: act_params_nomatch)
next
  case (3 seg s2 rest pre doit d cs acc)
  then have "sub_matching seg (s2 # rest) pre cs = []"
    by (simp add: sub_matching_def)
  with "3.IH" show ?case by simp
next
  case (4 seg rest pre doit acc)
  then show ?case by simp
next
  case (5 seg rest pre doit c cs acc)
  show ?case
  proof (cases "seg_matches seg (instanceName c)")
    case True
    with "5.prems" have m: "matching rest (unroll pre (instanceName c)) c = []"
      and s: "sub_matching seg rest pre cs = []"
      by (simp_all add: sub_matching_def)
    from "5.IH"(1)[OF True m] have
      w: "walk rest (unroll pre (instanceName c)) doit c acc = (None, c, acc)" .
    from "5.IH"(2)[OF True w[symmetric] _ _ s] True w show ?thesis by simp
  next
    case False
    with "5.prems" have s: "sub_matching seg rest pre cs = []"
      by (simp add: sub_matching_def)
    from "5.IH"(3)[OF False s] False show ?thesis by simp
  qed
qed

lemma parse_nosuch: "parse_descriptor ''nosuch'' = [''nosuch'']"
  by (simp add: parse_descriptor_def)

lemma parse_star_log: "parse_descriptor ''*:log'' = [''*'', ''log'']"
  by (simp add: parse_descriptor_def)

lemma matches_nosuch: "matches ''nosuch'' two_logs = []"
  by (simp add: matches_def parse_nosuch two_logs_def mkcomp_def)

lemma setParamVal_two_logs:
  "setParamVal ''*:log'' (BoolV False) two_logs = (Inr [''a:log'', ''b:log''], two_logs_off)"
  by (simp add: setParamVal_def findParamAndActOnIt_def parse_star_log two_logs_def
      two_logs_off_def mkcomp_def mkparam_def seg_matches_def instanceName_def unroll_def
      set_action_def param_set_def in_valid_set_def regex_ok_def callback_ok_def)

lemma getParamVal_two_logs:
  "getParamVal BoolT ''*:log'' two_logs = Inr [(''a:log'', BoolV True), (''b:log'', BoolV True)]"
  by (simp add: getParamVal_def findParamAndActOnIt_def parse_star_log two_logs_def
      mkcomp_def mkparam_def seg_matches_def instanceName_def unroll_def
      get_action_def param_get_def)

text \<open>
  Whatever the walk does: \<open>setParamValUnique\<close> adds nothing but the test for more than one
  match to \<open>setParamVal\<close>. When \<open>setParamVal\<close> returns the empty list, it returns normally.
\<close>

lemma setParamValUnique_after_empty_list:
  "setParamVal descriptor val this = (Inr [], this') \<Longrightarrow>
     setParamValUnique descriptor val this = (None, this')"
  by (simp add: setParamValUnique_def)

section \<open>Claims about parameter access by descriptor\<close>

text \<open>
  C1, as the code has it. When \<open>setParamVal\<close> itself goes through on more than one matching
  Parameter, \<open>setParamValUnique\<close> raises the multiple-match error only after every match
  has been set: the resolved descriptors are all the matches of the descriptor, and reading
  them back in the state the call leaves gives the new value for each of them.
\<close>

theorem setParamValUnique_sets_before_raising:
  assumes "setParamVal descriptor val this = (Inr ret, this')"
    and "length ret > 1"
  shows "setParamValUnique descriptor val this = (Some (MultipleMatch descriptor), this') \<and>
         ret = matches descriptor this \<and>
         getParamVal (vtype val) descriptor this' = Inr (map (\<lambda>u. (u, val)) ret)"
proof -
  from assms(1) have
    w: "walk (parse_descriptor descriptor) [] (set_action val) this [] = (None, this', ret)"
    by (auto simp: setParamVal_def findParamAndActOnIt_def split: prod.splits option.splits)
  from walk_set_get(1)[OF w] have
    r: "ret = matching (parse_descriptor descriptor) [] this"
    and g: "walk (parse_descriptor descriptor) [] (get_action (vtype val)) this' [] =
             (None, this', map (\<lambda>u. (u, val)) (matching (parse_descriptor descriptor) [] this))"
    by simp_all
  from assms have "setParamValUnique descriptor val this = (Some (MultipleMatch descriptor), this')"
    by (simp add: setParamValUnique_def)
  moreover from r have "ret = matches descriptor this"
    by (simp add: matches_def)
  moreover from g r have
    "getParamVal (vtype val) descriptor this' = Inr (map (\<lambda>u. (u, val)) ret)"
    by (simp add: getParamVal_def findParamAndActOnIt_def)
  ultimately show ?thesis by simp
qed

text \<open>C1, the amended statement at the tree with two \<open>log\<close> parameters.\<close>

theorem setParamValUnique_sets_before_raising_witness:
  "setParamVal ''*:log'' (BoolV False) two_logs = (Inr [''a:log'', ''b:log''], two_logs_off) \<and>
   setParamValUnique ''*:log'' (BoolV False) two_logs = (Some (MultipleMatch ''*:log''), two_logs_off) \<and>
   getParamVal BoolT ''*:log'' two_logs_off =
     Inr [(''a:log'', BoolV False), (''b:log'', BoolV False)]"
  using setParamValUnique_sets_before_raising[OF setParamVal_two_logs] setParamVal_two_logs
  by simp

text \<open>
  C1 as stated fails: on the tree with \<open>a:log\<close> and \<open>b:log\<close>, both \<open>true\<close>,
  \<open>setParamValUnique("*:log", false)\<close> raises multiple-match and leaves both \<open>false\<close>.
\<close>

theorem setParamValUnique_changes_values:
  "matches ''*:log'' two_logs = [''a:log'', ''b:log''] \<and>
   getParamVal BoolT ''*:log'' two_logs = Inr [(''a:log'', BoolV True), (''b:log'', BoolV True)] \<and>
   fst (setParamValUnique ''*:log'' (BoolV False) two_logs) = Some (MultipleMatch ''*:log'') \<and>
   getParamVal BoolT ''*:log'' (snd (setParamValUnique ''*:log'' (BoolV False) two_logs)) =
     Inr [(''a:log'', BoolV False), (''b:log'', BoolV False)]"
proof -
  have m: "matches ''*:log'' two_logs = [''a:log'', ''b:log'']"
    by (simp add: matches_def parse_star_log two_logs_def mkcomp_def mkparam_def
        seg_matches_def instanceName_def unroll_def)
  have u: "setParamValUnique ''*:log'' (BoolV False) two_logs =
             (Some (MultipleMatch ''*:log''), two_logs_off)"
    by (simp add: setParamValUnique_def setParamVal_two_logs)
  have g: "getParamVal BoolT ''*:log'' two_logs_off =
             Inr [(''a:log'', BoolV False), (''b:log'', BoolV False)]"
    by (simp add: getParamVal_def findParamAndActOnIt_def parse_star_log two_logs_off_def
      mkcomp_def mkparam_def seg_matches_def instanceName_def unroll_def
      get_action_def param_get_def)
  from m u g getParamVal_two_logs show ?thesis by simp
qed

text \<open>
  C3: for every descriptor with zero matching Parameters, \<open>setParamVal\<close> raises no error,
  leaves the Component tree as it was and returns the empty list of resolved descriptors.
\<close>

theorem setParamVal_zero_matches:
  assumes "matches descriptor this = []"
  shows "setParamVal descriptor val this = (Inr [], this)"
  using assms
  by (simp add: setParamVal_def findParamAndActOnIt_def matches_def walk_nomatch(1))

text \<open>C3 at the descriptor \<open>nosuch\<close>, which matches nothing in the tree with two \<open>log\<close>s.\<close>

theorem setParamVal_zero_matches_witness:
  "matches ''nosuch'' two_logs = [] \<and>
   setParamVal ''nosuch'' (BoolV False) two_logs = (Inr [], two_logs)"
  using setParamVal_zero_matches[of "''nosuch''" two_logs "BoolV False"] matches_nosuch
  by simp

section \<open>Claims about sub-component management\<close>

lemma init_ok_initialized: "init c = (None, c') \<Longrightarrow> initialized c'"
  by (cases c) (auto simp: initialized_def split: if_splits prod.splits option.splits)

lemma init_addr: "init c = (r, c') \<Longrightarrow> addr (node c') = addr (node c)"
  by (cases c) (auto split: if_splits prod.splits option.splits)

lemma initialized_setters [simp]:
  "initialized (setPath p c) = initialized c"
  "initialized (setParent q c) = initialized c"
  by (simp_all add: initialized_def setPath_def setParent_def)

lemma addr_setters [simp]:
  "addr (node (setPath p c)) = addr (node c)"
  "addr (node (setParent q c)) = addr (node c)"
  "addr (node (construct cls name a)) = a"
  by (simp_all add: setPath_def setParent_def construct_def)

text \<open>
  C4: when \<open>addSubComponent\<close> is invoked on an initialized Component and returns a pointer,
  the child it has appended is the one the pointer refers to, and that child is initialized.
\<close>

theorem addSubComponent_initialized:
  assumes "initialized this"
    and "addSubComponent dflt cls instance a this = (Inr h, this')"
  shows "\<exists>child. itsSubComponents this' = itsSubComponents this @ [child]
           \<and> addr (node child) = h \<and> initialized child"
proof -
  from assms(2) obtain name where
    n: "computeInstanceName dflt instance (className cls) this = Inr name"
    by (auto simp: addSubComponent_def split: sum.splits)
  define sub where
    "sub = setPath (absolutePath this) (setParent (Some (addr (node this))) (construct cls name a))"
  from assms n obtain sub' where
    i: "init sub = (None, sub')" and t: "this' = push_back sub' this" and h: "h = a"
    by (auto simp: addSubComponent_def sub_def Let_def split: prod.splits option.splits)
  from init_addr[OF i] have "addr (node sub') = a" by (simp add: sub_def)
  with init_ok_initialized[OF i] t h show ?thesis
    by (simp add: push_back_def)
qed

text \<open>C4 on an initialized root: the new child and the sub-Component it owns are initialized.\<close>

theorem addSubComponent_initialized_witness:
  "initialized running_root \<and>
   addSubComponent (\<lambda>c. c) proc_class ''proc'' 200 running_root =
     (Inr 200, Component (node running_root)
        (itsSubComponents running_root @
           [Component \<lparr>addr = 200, itsInstanceName = ''proc'', itsParent = Some 100,
                       itsInitialized = True, itsPath = ''root'',
                       itsParameterList = [mkparam ''fps'' (IntV 30)],
                       preInitFails = False, postInitFails = False\<rparr>
                      [Component \<lparr>addr = 201, itsInstanceName = ''inner'',
                          itsParent = Some 200, itsInitialized = True, itsPath = [],
                          itsParameterList = [], preInitFails = False,
                          postInitFails = False\<rparr> []]])) \<and>
   (\<exists>child. itsSubComponents (snd (addSubComponent (\<lambda>c. c) proc_class ''proc'' 200 running_root))
              = itsSubComponents running_root @ [child]
            \<and> addr (node child) = 200 \<and> initialized child)"
proof -
  have i: "initialized running_root"
    by (simp add: running_root_def mkcomp_def initialized_def)
  have e: "addSubComponent (\<lambda>c. c) proc_class ''proc'' 200 running_root =
     (Inr 200, Component (node running_root)
        (itsSubComponents running_root @
           [Component \<lparr>addr = 200, itsInstanceName = ''proc'', itsParent = Some 100,
                       itsInitialized = True, itsPath = ''root'',
                       itsParameterList = [mkparam ''fps'' (IntV 30)],
                       preInitFails = False, postInitFails = False\<rparr>
                      [Component \<lparr>addr = 201, itsInstanceName = ''inner'',
                          itsParent = Some 200, itsInitialized = True, itsPath = [],
                          itsParameterList = [], preInitFails = False,
                          postInitFails = False\<rparr> []]]))"
    by (simp add: addSubComponent_def computeInstanceName_def running_root_def mkcomp_def
        proc_class_def instanceName_def initialized_def construct_def setParent_def setPath_def
        absolutePath_def push_back_def Let_def)
  from addSubComponent_initialized[OF i e] i e show ?thesis by simp
qed

text \<open>
  C5: if the instance name computed for the new child (the requested name, or the default of
  the class when none is requested) is the name of an existing sibling, \<open>addSubComponent\<close>
  raises name-clash and the Component, with its list of sub-Components, is unchanged.
\<close>

theorem addSubComponent_name_clash:
  assumes "(if instance \<noteq> [] then instance else dflt (className cls))
             \<in> set (map instanceName (itsSubComponents this))"
  shows "addSubComponent dflt cls instance a this =
           (Inl (NameClash (if instance \<noteq> [] then instance else dflt (className cls))), this)"
  using assms by (simp add: addSubComponent_def computeInstanceName_def Let_def)

text \<open>C5 at a root that already has a child named \<open>cam\<close>.\<close>

theorem addSubComponent_name_clash_witness:
  "''cam'' \<in> set (map instanceName (itsSubComponents running_root)) \<and>
   addSubComponent (\<lambda>c. c) proc_class ''cam'' 200 running_root =
     (Inl (NameClash ''cam''), running_root)"
proof -
  have m: "(if ''cam'' \<noteq> [] then ''cam'' else (\<lambda>c. c) (className proc_class))
             \<in> set (map instanceName (itsSubComponents running_root))"
    by (simp add: running_root_def mkcomp_def instanceName_def)
  from addSubComponent_name_clash[of "''cam''" "\<lambda>c. c" proc_class running_root 200, OF m] m
  show ?thesis by simp
qed

lemma find_by_ptr_Some:
  "find_by_ptr p cs = Some i \<Longrightarrow>
     i < length cs \<and> Some (addr (node (cs ! i))) = p \<and>
     (\<forall>j < i. Some (addr (node (cs ! j))) \<noteq> p)"
proof (induction cs arbitrary: i)
  case Nil
  then show ?case by simp
next
  case (Cons c cs)
  show ?case
  proof (cases "Some (addr (node c)) = p")
    case True
    with Cons.prems show ?thesis by simp
  next
    case False
    with Cons.prems obtain k where k: "find_by_ptr p cs = Some k" and i: "i = Suc k"
      by auto
    from Cons.IH[OF k] False i show ?thesis
      by (auto simp: less_Suc_eq_0_disj)
  qed
qed

lemma find_by_ptr_None:
  "(find_by_ptr p cs = None) = (\<forall>c \<in> set cs. Some (addr (node c)) \<noteq> p)"
  by (induction cs) auto

lemma doRemoveSubComponent_at:
  assumes "i < length (itsSubComponents (comp w))"
  shows "doRemoveSubComponent i name w =
     w\<lparr>comp := Component (node (comp w))
                 (take i (itsSubComponents (comp w)) @ drop (Suc i) (itsSubComponents (comp w))),
       trace := trace w @
          (if initialized (itsSubComponents (comp w) ! i)
           then [Uninit (addr (node (itsSubComponents (comp w) ! i)))] else [])
          @ [Erase (addr (node (itsSubComponents (comp w) ! i)))]\<rparr>"
proof -
  from assms have "drop i (itsSubComponents (comp w)) =
      (itsSubComponents (comp w) ! i) # drop (Suc i) (itsSubComponents (comp w))"
    by (simp add: Cons_nth_drop_Suc)
  then show ?thesis
    by (simp add: doRemoveSubComponent_def Let_def)
qed

lemma removeSubComponent_by_identity:
  assumes "component_ptr w = Some h"
    and "find_by_ptr (Some (addr (node h))) (itsSubComponents (comp w)) = Some i"
  shows "fst (removeSubComponent w) = None \<and>
         addr (node (itsSubComponents (comp w) ! i)) = addr (node h) \<and>
         itsSubComponents (comp (snd (removeSubComponent w))) =
           take i (itsSubComponents (comp w)) @ drop (Suc i) (itsSubComponents (comp w))"
proof -
  from find_by_ptr_Some[OF assms(2)] have
    i: "i < length (itsSubComponents (comp w))"
    and a: "addr (node (itsSubComponents (comp w) ! i)) = addr (node h)"
    by simp_all
  from assms i a show ?thesis
    by (simp add: removeSubComponent_def doRemoveSubComponent_at)
qed

lemma removeSubComponent_unknown_handle:
  assumes "component_ptr w = Some h"
    and "\<forall>c \<in> set (itsSubComponents (comp w)). addr (node c) \<noteq> addr (node h)"
  shows "removeSubComponent w =
     (None, w\<lparr>trace := trace w @
        [LogError (''SubComponent ['' @ instanceName h @ ''] not found. Ignored.'')]\<rparr>)"
proof -
  from assms have "find_by_ptr (Some (addr (node h))) (itsSubComponents (comp w)) = None"
    by (simp add: find_by_ptr_None)
  with assms(1) show ?thesis
    by (simp add: removeSubComponent_def)
qed

text \<open>
  C6 at a null handle, which no owned child is identical to: the message of line 122
  dereferences it, so the call ends in the undefined dereference instead of a logged
  warning. (For a handle that points to an object, the two lemmas above give what the
  claim says.)
\<close>

theorem removeSubComponent_null_handle:
  "find_by_ptr None (itsSubComponents (comp holds_null)) = None \<and>
   removeSubComponent holds_null = (Some NullDeref, holds_null)"
  by (simp add: removeSubComponent_def holds_null_def running_root_def mkcomp_def)

text \<open>
  C10: on the found path of \<open>removeSubComponent\<close> the caller's pointer is null afterwards
  and its reset comes before the erasure of the child in the sequence of effects; on the
  not-found path a handle that points to a component is left as it was, and so is the
  Component.
\<close>

theorem removeSubComponent_handle:
  "(find_by_ptr (map_option (\<lambda>h. addr (node h)) (component_ptr w))
                (itsSubComponents (comp w)) = Some i \<longrightarrow>
      component_ptr (snd (removeSubComponent w)) = None \<and>
      (\<exists>evs. trace (snd (removeSubComponent w)) =
               trace w @ HandleReset # evs @ [Erase (addr (node (itsSubComponents (comp w) ! i)))]) \<and>
      itsSubComponents (comp (snd (removeSubComponent w))) =
           take i (itsSubComponents (comp w)) @ drop (Suc i) (itsSubComponents (comp w)))
   \<and>
   (find_by_ptr (map_option (\<lambda>h. addr (node h)) (component_ptr w))
                (itsSubComponents (comp w)) = None \<and> component_ptr w = Some h \<longrightarrow>
      component_ptr (snd (removeSubComponent w)) = Some h \<and>
      comp (snd (removeSubComponent w)) = comp w)"
proof (intro conjI impI)
  assume f: "find_by_ptr (map_option (\<lambda>h. addr (node h)) (component_ptr w))
                (itsSubComponents (comp w)) = Some i"
  from find_by_ptr_Some[OF f] have i: "i < length (itsSubComponents (comp w))" by simp
  let ?w1 = "w\<lparr>component_ptr := None, trace := trace w @ [HandleReset]\<rparr>"
  from i have i1: "i < length (itsSubComponents (comp ?w1))" by simp
  from f have r: "snd (removeSubComponent w) = doRemoveSubComponent i ''SubComponent'' ?w1"
    by (simp add: removeSubComponent_def)
  show "component_ptr (snd (removeSubComponent w)) = None"
    by (simp add: r doRemoveSubComponent_at[OF i1])
  show "\<exists>evs. trace (snd (removeSubComponent w)) =
               trace w @ HandleReset # evs @ [Erase (addr (node (itsSubComponents (comp w) ! i)))]"
    by (simp add: r doRemoveSubComponent_at[OF i1])
  show "itsSubComponents (comp (snd (removeSubComponent w))) =
           take i (itsSubComponents (comp w)) @ drop (Suc i) (itsSubComponents (comp w))"
    by (simp add: r doRemoveSubComponent_at[OF i1])
next
  assume n: "find_by_ptr (map_option (\<lambda>h. addr (node h)) (component_ptr w))
                (itsSubComponents (comp w)) = None \<and> component_ptr w = Some h"
  then have c: "component_ptr w = Some h" by (rule conjunct2)
  from n have "find_by_ptr (map_option (\<lambda>h. addr (node h)) (component_ptr w))
                (itsSubComponents (comp w)) = None" by (rule conjunct1)
  then have f: "find_by_ptr (Some (addr (node h))) (itsSubComponents (comp w)) = None"
    by (simp add: c)
  from c f show "component_ptr (snd (removeSubComponent w)) = Some h"
    by (simp add: removeSubComponent_def)
  from c f show "comp (snd (removeSubComponent w)) = comp w"
    by (simp add: removeSubComponent_def)
qed

text \<open>C10 for a caller that holds the child and for one that holds a namesake of it.\<close>

theorem removeSubComponent_handle_witness:
  "find_by_ptr (map_option (\<lambda>h. addr (node h)) (component_ptr holds_child))
               (itsSubComponents (comp holds_child)) = Some 0 \<and>
   component_ptr (snd (removeSubComponent holds_child)) = None \<and>
   trace (snd (removeSubComponent holds_child)) = [HandleReset, Uninit 101, Erase 101] \<and>
   find_by_ptr (map_option (\<lambda>h. addr (node h)) (component_ptr holds_namesake))
               (itsSubComponents (comp holds_namesake)) = None \<and>
   component_ptr (snd (removeSubComponent holds_namesake)) = component_ptr holds_namesake \<and>
   component_ptr holds_namesake \<noteq> None"
proof -
  have f: "find_by_ptr (map_option (\<lambda>h. addr (node h)) (component_ptr holds_child))
               (itsSubComponents (comp holds_child)) = Some 0"
    by (simp add: holds_child_def running_root_def mkcomp_def)
  have n1: "find_by_ptr (map_option (\<lambda>h. addr (node h)) (component_ptr holds_namesake))
               (itsSubComponents (comp holds_namesake)) = None"
    by (simp add: holds_namesake_def running_root_def mkcomp_def)
  have n2: "component_ptr holds_namesake = Some (mkcomp 300 ''cam'' False [] [])"
    by (simp add: holds_namesake_def)
  have t: "trace (snd (removeSubComponent holds_child)) = [HandleReset, Uninit 101, Erase 101]"
    by (simp add: removeSubComponent_def doRemoveSubComponent_def holds_child_def
        running_root_def mkcomp_def initialized_def Let_def)
  from removeSubComponent_handle[of holds_child 0] f
  have "component_ptr (snd (removeSubComponent holds_child)) = None" by blast
  moreover from removeSubComponent_handle[of holds_namesake 0 "mkcomp 300 ''cam'' False [] []"]
    n1 n2
  have "component_ptr (snd (removeSubComponent holds_namesake)) = component_ptr holds_namesake"
    by metis
  ultimately show ?thesis using f n1 n2 t by simp
qed

section \<open>Claims about Serial\<close>

lemma rng_5_8:
  "in_item c (Rng (CHR ''5'') (CHR ''8'')) = (c \<in> set ''5678'')"
proof
  assume "in_item c (Rng (CHR ''5'') (CHR ''8''))"
  then have "(53::nat) \<le> of_char c \<and> (of_char c :: nat) \<le> 56" by simp
  then have "(of_char c :: nat) = 53 \<or> (of_char c :: nat) = 54
           \<or> (of_char c :: nat) = 55 \<or> (of_char c :: nat) = 56" by arith
  then have "(of_char c :: nat) = of_char (CHR ''5'') \<or> (of_char c :: nat) = of_char (CHR ''6'')
           \<or> (of_char c :: nat) = of_char (CHR ''7'') \<or> (of_char c :: nat) = of_char (CHR ''8'')"
    by simp
  then have "c = CHR ''5'' \<or> c = CHR ''6'' \<or> c = CHR ''7'' \<or> c = CHR ''8''"
    by (simp only: of_char_eq_iff)
  then show "c \<in> set ''5678''" by auto
next
  assume "c \<in> set ''5678''"
  then show "in_item c (Rng (CHR ''5'') (CHR ''8''))" by auto
qed

lemma format_regex_DPS: "rx_match format_regex True s = format_DPS s"
proof (cases s)
  case Nil
  then show ?thesis by (simp add: format_regex_def format_DPS_def)
next
  case (Cons d s1)
  note s = Cons
  show ?thesis
  proof (cases s1)
    case Nil
    with s show ?thesis by (simp add: format_regex_def format_DPS_def)
  next
    case (Cons p s2)
    note s1 = Cons
    show ?thesis
    proof (cases s2)
      case Nil
      with s s1 show ?thesis by (simp add: format_regex_def format_DPS_def)
    next
      case (Cons t s3)
      with s s1 rng_5_8[of d] show ?thesis
        by (cases s3) (auto simp: format_regex_def format_DPS_def)
    qed
  qed
qed

text \<open>
  C8: whatever the current value, setting \<open>format\<close> succeeds exactly for the three-character
  strings with data bits 5 to 8, parity N, E or O and stop bits 1 or 2; for any other string
  a validation error is raised and the stored value is unchanged.
\<close>

theorem format_set_exactly_DPS:
  "param_set (StrV s) (serial_format\<lparr>pvalue := cur\<rparr>) =
     (if format_DPS s then (None, serial_format\<lparr>pvalue := StrV s\<rparr>)
      else (Some (Validation ''format''), serial_format\<lparr>pvalue := cur\<rparr>))"
  by (simp add: param_set_def in_valid_set_def regex_ok_def callback_ok_def serial_format_def
      format_regex_DPS)

text \<open>C8 at one accepted and two rejected strings, from the default \<open>8N1\<close>.\<close>

theorem format_set_exactly_DPS_witness:
  "format_DPS ''7E2'' \<and> \<not> format_DPS ''9E2'' \<and> \<not> format_DPS ''8N1x'' \<and>
   param_set (StrV ''7E2'') serial_format = (None, serial_format\<lparr>pvalue := StrV ''7E2''\<rparr>) \<and>
   param_set (StrV ''9E2'') serial_format = (Some (Validation ''format''), serial_format) \<and>
   param_set (StrV ''8N1x'') serial_format = (Some (Validation ''format''), serial_format)"
proof -
  have d: "format_DPS ''7E2''" "\<not> format_DPS ''9E2''" "\<not> format_DPS ''8N1x''"
    by (simp_all add: format_DPS_def)
  have c: "serial_format\<lparr>pvalue := StrV ''8N1''\<rparr> = serial_format"
    by (simp add: serial_format_def)
  from format_set_exactly_DPS[of "''7E2''" "StrV ''8N1''"]
       format_set_exactly_DPS[of "''9E2''" "StrV ''8N1''"]
       format_set_exactly_DPS[of "''8N1x''" "StrV ''8N1''"] d c
  show ?thesis by simp
qed

lemma write_all_emitted:
  "write_all buf s sched = (r, s') \<Longrightarrow>
     linestyle s' = linestyle s \<and>
     (\<exists>k. emitted s' = emitted s @ take k buf) \<and>
     (r = None \<longrightarrow> emitted s' = emitted s @ buf)"
proof (induction buf s sched arbitrary: r s' rule: write_all.induct)
  case (1 s sched)
  then show ?case by auto
next
  case (2 b bs s)
  then have r: "r = Some Fatal" and s': "s' = s\<lparr>accepts := []\<rparr>" by simp_all
  from s' have "emitted s' = emitted s @ take 0 (b # bs)" by simp
  then have "\<exists>k. emitted s' = emitted s @ take k (b # bs)" ..
  with r s' show ?case by simp
next
  case (3 b bs s n sched)
  let ?s1 = "s\<lparr>emitted := emitted s @ take n (b # bs)\<rparr>"
  from "3.prems" have w: "write_all (drop n (b # bs)) ?s1 sched = (r, s')" by simp
  from "3.IH"[OF w] obtain k where
    l: "linestyle s' = linestyle s"
    and k: "emitted s' = emitted s @ take n (b # bs) @ take k (drop n (b # bs))"
    and f: "r = None \<longrightarrow> emitted s' = emitted s @ take n (b # bs) @ drop n (b # bs)"
    by auto
  have "take n (b # bs) @ take k (drop n (b # bs)) = take (n + k) (b # bs)"
    by (simp add: take_add)
  with k have "\<exists>j. emitted s' = emitted s @ take j (b # bs)" by metis
  with l f show ?case by simp
qed

lemma write_all_completes:
  "length buf \<le> sum_list sched \<Longrightarrow> fst (write_all buf s sched) = None"
proof (induction buf s sched rule: write_all.induct)
  case (1 s sched)
  then show ?case by simp
next
  case (2 b bs s)
  then show ?case by simp
next
  case (3 b bs s n sched)
  then show ?case by simp
qed

text \<open>
  C9: with line style CRLF, a \<open>writeString\<close> that returns normally has emitted exactly the
  bytes of the string followed by \<open>\r\<close> and \<open>\n\<close>; whatever the outcome, nothing but a
  prefix of these bytes is emitted; and it does return normally when the device takes that
  many bytes.
\<close>

theorem writeString_CRLF:
  assumes "linestyle s = CRLF"
    and "writeString str s = (r, s')"
  shows "(r = None \<longrightarrow> emitted s' = emitted s @ str @ [CHR 0x0D, CHR 0x0A]) \<and>
         (\<exists>k. emitted s' = emitted s @ take k (str @ [CHR 0x0D, CHR 0x0A])) \<and>
         (length str + 2 \<le> sum_list (accepts s) \<longrightarrow> r = None)"
proof -
  from assms have w: "write_all (str @ [CHR 0x0D, CHR 0x0A]) s (accepts s) = (r, s')"
    by (simp add: writeString_def write_bytes_def)
  from write_all_emitted[OF w] write_all_completes[of "str @ [CHR 0x0D, CHR 0x0A]" "accepts s" s] w
  show ?thesis by simp
qed

text \<open>C9 for \<open>writeString("ok")\<close>: the four bytes \<open>o\<close>, \<open>k\<close>, \<open>\r\<close>, \<open>\n\<close>.\<close>

theorem writeString_CRLF_witness:
  "linestyle crlf_port = CRLF \<and>
   writeString ''ok'' crlf_port =
     (None, crlf_port\<lparr>emitted := [CHR ''o'', CHR ''k'', CHR 0x0D, CHR 0x0A], accepts := []\<rparr>) \<and>
   emitted (snd (writeString ''ok'' crlf_port)) = emitted crlf_port @ ''ok'' @ [CHR 0x0D, CHR 0x0A]"
proof -
  have l: "linestyle crlf_port = CRLF" by (simp add: crlf_port_def)
  have w: "writeString ''ok'' crlf_port =
     (None, crlf_port\<lparr>emitted := [CHR ''o'', CHR ''k'', CHR 0x0D, CHR 0x0A], accepts := []\<rparr>)"
    by (simp add: writeString_def write_bytes_def crlf_port_def)
  from writeString_CRLF[OF l w] l w show ?thesis by simp
qed

section \<open>Claims about string conversion\<close>

lemma of_char_digit_char: "d < 10 \<Longrightarrow> (of_char (digit_char d) :: nat) = 48 + d"
  by (simp add: digit_char_def)

lemma digit_val_digit_char: "d < 10 \<Longrightarrow> digit_val (digit_char d) = Some d"
  by (simp add: digit_val_def of_char_digit_char Let_def)

lemma digit_of_digit_char: "d < 10 \<Longrightarrow> digit_of (digit_char d) = d"
  by (simp add: digit_of_def digit_val_digit_char)

lemma is_digit_10: "d < 10 \<Longrightarrow> is_digit 10 (digit_char d)"
  by (simp add: is_digit_def digit_val_digit_char)

lemma digit_char_eqI: "(of_char c :: nat) = 48 + d \<Longrightarrow> d < 10 \<Longrightarrow> digit_char d = c"
proof -
  assume a: "(of_char c :: nat) = 48 + d" and d: "d < 10"
  from d have "(of_char (digit_char d) :: nat) = 48 + d" by (rule of_char_digit_char)
  with a have "(of_char (digit_char d) :: nat) = of_char c" by simp
  then show ?thesis by (simp only: of_char_eq_iff)
qed

lemma digit_char_numeral:
  "digit_char 0 = CHR ''0''" "digit_char 1 = CHR ''1''" "digit_char 2 = CHR ''2''"
  "digit_char 3 = CHR ''3''" "digit_char 4 = CHR ''4''" "digit_char 5 = CHR ''5''"
  "digit_char 6 = CHR ''6''" "digit_char 7 = CHR ''7''" "digit_char 8 = CHR ''8''"
  "digit_char 9 = CHR ''9''" "digit_char (Suc 0) = CHR ''1''"
  by (rule digit_char_eqI; simp)+

lemma digit_char_neq:
  assumes "d < 10"
  shows "\<not> isspace (digit_char d)" "digit_char d \<noteq> CHR ''-''" "digit_char d \<noteq> CHR ''+''"
    "(digit_char d = CHR ''0'') = (d = 0)"
proof -
  from assms have o: "(of_char (digit_char d) :: nat) = 48 + d"
    by (rule of_char_digit_char)
  from o assms show "\<not> isspace (digit_char d)"
    by (simp add: isspace_def Let_def)
  from o show "digit_char d \<noteq> CHR ''-''" by auto
  from o show "digit_char d \<noteq> CHR ''+''" by auto
  show "(digit_char d = CHR ''0'') = (d = 0)"
  proof
    assume "digit_char d = CHR ''0''"
    then have "(of_char (digit_char d) :: nat) = of_char (CHR ''0'')" by simp
    with o show "d = 0" by simp
  next
    assume "d = 0"
    then show "digit_char d = CHR ''0''" by (simp add: digit_char_numeral(1))
  qed
qed

lemma digits_value_snoc:
  "digits_value b (ds @ [c]) = digits_value b ds * b + digit_of c"
  by (simp add: digits_value_def)

lemma to_dec_value: "digits_value 10 (to_dec n) = n"
proof (induction n rule: to_dec.induct)
  case (1 n)
  show ?case
  proof (cases "n < 10")
    case True
    then show ?thesis
      by (simp add: to_dec.simps[of n] digits_value_def digit_of_digit_char)
  next
    case False
    with 1 have "digits_value 10 (to_dec (n div 10)) = n div 10" by simp
    with False show ?thesis
      by (simp add: to_dec.simps[of n] digits_value_snoc digit_of_digit_char)
  qed
qed

lemma to_dec_digits: "\<forall>c \<in> set (to_dec n). is_digit 10 c"
proof (induction n rule: to_dec.induct)
  case (1 n)
  show ?case
  proof (cases "n < 10")
    case True
    then show ?thesis by (simp add: to_dec.simps[of n] is_digit_10)
  next
    case False
    with 1 have "\<forall>c \<in> set (to_dec (n div 10)). is_digit 10 c" by simp
    with False show ?thesis
      by (simp add: to_dec.simps[of n] is_digit_10)
  qed
qed

lemma to_dec_head:
  "\<exists>d r. to_dec n = digit_char d # r \<and> d < 10 \<and> (d = 0 \<longrightarrow> n = 0 \<and> r = [])"
proof (induction n rule: to_dec.induct)
  case (1 n)
  show ?case
  proof (cases "n < 10")
    case True
    then have "to_dec n = digit_char n # [] \<and> n < 10 \<and> (n = 0 \<longrightarrow> n = 0 \<and> [] = ([] :: string))"
      by (simp add: to_dec.simps[of n])
    then show ?thesis by blast
  next
    case False
    with 1 obtain d r where
      h: "to_dec (n div 10) = digit_char d # r" "d < 10" "d = 0 \<longrightarrow> n div 10 = 0 \<and> r = []"
      by blast
    from False have "n div 10 \<noteq> 0" by simp
    with h have "d \<noteq> 0" by blast
    with h False have "to_dec n = digit_char d # (r @ [digit_char (n mod 10)]) \<and> d < 10 \<and>
        (d = 0 \<longrightarrow> n = 0 \<and> r @ [digit_char (n mod 10)] = [])"
      by (simp add: to_dec.simps[of n])
    then show ?thesis by blast
  qed
qed

lemma takeWhile_to_dec: "takeWhile (is_digit 10) (to_dec n) = to_dec n"
  using to_dec_digits by (simp add: takeWhile_eq_all_conv)

lemma detect_base_nonzero:
  assumes "c \<noteq> CHR ''0''"
  shows "detect_base (c # r) = (10, c # r)"
proof (cases r)
  case Nil
  with assms show ?thesis by (simp add: detect_base_def)
next
  case (Cons x r1)
  with assms show ?thesis by (cases r1) (simp_all add: detect_base_def)
qed

lemma scan_to_dec:
  "\<exists>base t. detect_base (to_dec n) = (base, t) \<and> takeWhile (is_digit base) t = to_dec n \<and>
            digits_value base (to_dec n) = n"
proof -
  from to_dec_head[of n] obtain d r where
    h: "to_dec n = digit_char d # r" "d < 10" "d = 0 \<longrightarrow> n = 0 \<and> r = []"
    by blast
  show ?thesis
  proof (cases "d = 0")
    case True
    with h have t: "to_dec n = [CHR ''0'']" and n: "n = 0"
      by (simp_all add: digit_char_numeral(1))
    have "is_digit 8 (CHR ''0'')" by (simp add: is_digit_def digit_val_def)
    moreover have "digit_of (CHR ''0'') = 0" by (simp add: digit_of_def digit_val_def)
    ultimately show ?thesis using t n
      by (simp add: detect_base_def digits_value_def)
  next
    case False
    with h digit_char_neq(4)[of d] have "digit_char d \<noteq> CHR ''0''" by simp
    then have "detect_base (digit_char d # r) = (10, digit_char d # r)"
      by (rule detect_base_nonzero)
    with h(1) have "detect_base (to_dec n) = (10, to_dec n)" by simp
    with takeWhile_to_dec[of n] to_dec_value[of n] show ?thesis
      by blast
  qed
qed

lemma to_dec_not_Nil: "to_dec n \<noteq> []"
  using to_dec_head[of n] by auto

lemma strip_to_dec: "strip_sign (dropWhile isspace (to_dec n)) = (False, to_dec n)"
proof -
  from to_dec_head[of n] obtain d r where
    h: "to_dec n = digit_char d # r" "d < 10" by blast
  with digit_char_neq[of d] show ?thesis
    by (simp add: strip_sign_def)
qed

lemma isspace_minus: "\<not> isspace (CHR ''-'')"
  by (simp add: isspace_def)

lemma stoll_decimal:
  "stoll (decimal v) = (if v < LLONG_MIN \<or> LLONG_MAX < v then Inl OutOfRange else Inr v)"
proof (cases "v < 0")
  case True
  from scan_to_dec[of "nat (- v)"] obtain base t where
    b: "detect_base (to_dec (nat (- v))) = (base, t)"
    and tw: "takeWhile (is_digit base) t = to_dec (nat (- v))"
    and dv: "digits_value base (to_dec (nat (- v))) = nat (- v)"
    by blast
  from True b tw dv show ?thesis
    by (simp add: stoll_def decimal_def isspace_minus strip_sign_def to_dec_not_Nil Let_def)
next
  case False
  from scan_to_dec[of "nat v"] obtain base t where
    b: "detect_base (to_dec (nat v)) = (base, t)"
    and tw: "takeWhile (is_digit base) t = to_dec (nat v)"
    and dv: "digits_value base (to_dec (nat v)) = nat v"
    by blast
  from False b tw dv show ?thesis
    by (simp add: stoll_def decimal_def strip_to_dec to_dec_not_Nil Let_def)
qed


lemma is_digit_decimal:
  assumes "is_digit b c" and "b \<le> 10"
  shows "(of_char c :: nat) = 48 + digit_of c \<and> digit_of c < b"
proof -
  from assms obtain d where d: "digit_val c = Some d" "d < b"
    by (auto simp: is_digit_def split: option.splits)
  with assms(2) have "d < 10" by simp
  with d(1) have "(of_char c :: nat) = 48 + d"
    by (auto simp: digit_val_def Let_def split: if_splits)
  with d show ?thesis by (simp add: digit_of_def)
qed

lemma stoll_single:
  assumes "stoll [c] = Inr x"
  shows "0 \<le> x \<and> x \<le> 9 \<and> (of_char c :: nat) = 48 + nat x"
proof -
  from assms have ns: "\<not> isspace c"
    by (auto simp: stoll_def strip_sign_def detect_base_def)
  from assms ns have nm: "c \<noteq> CHR ''-''" and np: "c \<noteq> CHR ''+''"
    by (auto simp: stoll_def strip_sign_def detect_base_def)
  obtain b where b: "detect_base [c] = (b, [c])" and b10: "b \<le> 10"
    by (cases "c = CHR ''0''") (simp_all add: detect_base_def)
  from assms ns nm np b have dg: "is_digit b c"
    by (auto simp: stoll_def strip_sign_def split: if_splits)
  with assms ns nm np b have x: "x = int (digit_of c)"
    by (auto simp: stoll_def strip_sign_def digits_value_def Let_def split: if_splits)
  from is_digit_decimal[OF dg b10] b10 x show ?thesis by simp
qed

lemma char_type_bounds:
  assumes "is_char_type T"
  shows "type_min T \<le> 0" "9 \<le> type_max T" "- 128 \<le> type_min T" "type_max T \<le> 255"
  using assms by (cases T; simp add: is_char_type_def)+

lemma char_roundtrip_fails:
  assumes "is_char_type T" and "type_min T \<le> v" and "v \<le> type_max T"
  shows "from_string T (to_string T v) \<noteq> Inr v"
proof
  assume r: "from_string T (to_string T v) = Inr v"
  from assms(1) have t: "to_string T v = [char_of v]" by (simp add: to_string_def)
  from r t obtain x where s: "stoll [char_of v] = Inr x" and c: "clamped_convert T x = v"
    by (auto simp: from_string_def split: sum.splits)
  from stoll_single[OF s] have x: "0 \<le> x" "x \<le> 9"
    and o: "(of_char (char_of v :: char) :: nat) = 48 + nat x"
    by simp_all
  from char_type_bounds[OF assms(1)] x have "clamped_convert T x = x"
    by (simp add: clamped_convert_def)
  with c have vx: "v = x" by simp
  have "(of_char (char_of v :: char) :: int) = v mod 256" by (rule of_char_of)
  moreover have "(of_char (char_of v :: char) :: int) = int (of_char (char_of v :: char))"
    by (simp add: of_char_def)
  ultimately have "v mod 256 = 48 + x" using o x by simp
  with vx x show False by simp
qed

lemma integer_type_bounds:
  assumes "is_integer_type T"
  shows "\<not> is_char_type T" "LLONG_MIN \<le> type_min T"
  using assms
  by (cases T; auto simp: is_integer_type_def is_char_type_def LLONG_MIN_def)+

lemma enum_roundtrip:
  assumes "map_of decl v = Some name" and "distinct (map snd decl)"
  shows "from_string_enum decl (to_string_enum decl v) = Inr v"
proof -
  let ?swapped = "map (\<lambda>(v, name). (name, v)) decl"
  from assms(1) have "(v, name) \<in> set decl" by (rule map_of_SomeD)
  then have m: "(name, v) \<in> set ?swapped" by force
  have "map fst ?swapped = map snd decl" by (induction decl) auto
  with assms(2) have "distinct (map fst ?swapped)" by (simp only:)
  from map_of_is_SomeI[OF this m] assms(1) show ?thesis
    by (simp add: from_string_enum_def to_string_enum_def)
qed

lemma LineStyle_declared: "map_of LineStyle_decl ls = Some (to_string_enum LineStyle_decl ls)"
  by (cases ls) (simp_all add: LineStyle_decl_def to_string_enum_def)

lemma TerminalMode_declared:
  "map_of TerminalMode_decl tm = Some (to_string_enum TerminalMode_decl tm)"
  by (cases tm) (simp_all add: TerminalMode_decl_def to_string_enum_def)

lemma declared_names_distinct:
  "distinct (map snd LineStyle_decl)" "distinct (map snd TerminalMode_decl)"
  by (simp_all add: LineStyle_decl_def TerminalMode_decl_def)

lemma to_dec_examples:
  "to_dec 1234567 = ''1234567''" "to_dec 1234568 = ''1234568''" "to_dec 123457 = ''123457''"
  "to_dec 6 = ''6''"
  by (simp_all add: to_dec.simps digit_char_numeral)

lemma round_sig6_examples:
  "round_sig6 1234567 = (123457, 6)" "round_sig6 1234568 = (123457, 6)"
  by (simp_all add: round_sig6_def to_dec_examples Let_def)

lemma to_string_double_examples:
  "to_string_double 1234567 = ''1.23457e+06''" "to_string_double 1234568 = ''1.23457e+06''"
  by (simp_all add: to_string_double_def round_sig6_examples to_dec_examples strip_zeros_def)

text \<open>
  C7, as the code has it. For \<open>bool\<close> and the integer types of 16, 32 and 64 bits, at every
  value of the type within the range of \<open>long long\<close>, \<open>from_string(to_string(v))\<close> is \<open>v\<close>:
  the decimal numeral that \<open>to_string\<close> writes goes through the prefix detection of
  \<open>stoll\<close> as decimal, or as octal for \<open>0\<close>; a value above \<open>LLONG_MAX\<close> is refused as out
  of range. For a character type the string is the character itself and is never read back
  as the value. The declared enums \<open>LineStyle\<close> and \<open>TerminalMode\<close> round-trip through their
  declared names, which are pairwise distinct. For \<open>double\<close> the string keeps six significant
  digits, so that different values share a string.
\<close>

theorem from_string_to_string_roundtrip:
  "(is_integer_type T \<and> type_min T \<le> v \<and> v \<le> type_max T \<and> v \<le> LLONG_MAX
      \<longrightarrow> from_string T (to_string T v) = Inr v) \<and>
   (is_integer_type T \<and> LLONG_MAX < v \<longrightarrow> from_string T (to_string T v) = Inl OutOfRange) \<and>
   (is_char_type T \<and> type_min T \<le> v \<and> v \<le> type_max T
      \<longrightarrow> from_string T (to_string T v) \<noteq> Inr v) \<and>
   from_string_enum LineStyle_decl (to_string_enum LineStyle_decl ls) = Inr ls \<and>
   from_string_enum TerminalMode_decl (to_string_enum TerminalMode_decl tm) = Inr tm \<and>
   to_string_double 1234567 = to_string_double 1234568"
proof (intro conjI impI)
  assume a: "is_integer_type T \<and> type_min T \<le> v \<and> v \<le> type_max T \<and> v \<le> LLONG_MAX"
  then have i: "is_integer_type T" by (rule conjunct1)
  from integer_type_bounds[OF i] a show "from_string T (to_string T v) = Inr v"
    by (simp add: from_string_def to_string_def stoll_decimal clamped_convert_def)
next
  assume a: "is_integer_type T \<and> LLONG_MAX < v"
  then have i: "is_integer_type T" by (rule conjunct1)
  from integer_type_bounds(1)[OF i] a show "from_string T (to_string T v) = Inl OutOfRange"
    by (simp add: from_string_def to_string_def stoll_decimal)
next
  assume "is_char_type T \<and> type_min T \<le> v \<and> v \<le> type_max T"
  then show "from_string T (to_string T v) \<noteq> Inr v"
    using char_roundtrip_fails by blast
next
  show "from_string_enum LineStyle_decl (to_string_enum LineStyle_decl ls) = Inr ls"
    using LineStyle_declared declared_names_distinct(1) by (rule enum_roundtrip)
next
  show "from_string_enum TerminalMode_decl (to_string_enum TerminalMode_decl tm) = Inr tm"
    using TerminalMode_declared declared_names_distinct(2) by (rule enum_roundtrip)
next
  show "to_string_double 1234567 = to_string_double 1234568"
    by (simp add: to_string_double_examples)
qed

lemma decimal_example: "decimal 9223372036854775808 = ''9223372036854775808''"
  by (simp add: decimal_def to_dec.simps digit_char_numeral)

lemma char_A: "char_of (65 :: int) = CHR ''A''"
proof -
  have "(of_char (char_of (65 :: int) :: char) :: int) = of_char (CHR ''A'')"
    by simp
  then show ?thesis by (simp only: of_char_eq_iff)
qed

text \<open>
  C7, the amended statement at the least \<open>int\<close>, at \<open>false\<close>, at \<open>2^63\<close> and at the
  character \<open>A\<close>.
\<close>

theorem from_string_to_string_roundtrip_witness:
  "is_integer_type (Signed 32) \<and> type_min (Signed 32) \<le> - 2147483648 \<and>
   - 2147483648 \<le> type_max (Signed 32) \<and> - 2147483648 \<le> LLONG_MAX \<and>
   from_string (Signed 32) (to_string (Signed 32) (- 2147483648)) = Inr (- 2147483648) \<and>
   is_integer_type (Unsigned 1) \<and> from_string (Unsigned 1) (to_string (Unsigned 1) 0) = Inr 0 \<and>
   is_integer_type (Unsigned 64) \<and> LLONG_MAX < 2 ^ 63 \<and>
   from_string (Unsigned 64) (to_string (Unsigned 64) (2 ^ 63)) = Inl OutOfRange \<and>
   is_char_type (Signed 8) \<and> type_min (Signed 8) \<le> 65 \<and> 65 \<le> type_max (Signed 8) \<and>
   from_string (Signed 8) (to_string (Signed 8) 65) \<noteq> Inr 65"
proof -
  have r: "is_integer_type (Signed 32) \<and> type_min (Signed 32) \<le> - 2147483648 \<and>
           - 2147483648 \<le> type_max (Signed 32) \<and> - 2147483648 \<le> LLONG_MAX"
    by (simp add: is_integer_type_def LLONG_MAX_def)
  have z: "is_integer_type (Unsigned 1) \<and> type_min (Unsigned 1) \<le> 0 \<and>
           0 \<le> type_max (Unsigned 1) \<and> 0 \<le> LLONG_MAX"
    by (simp add: is_integer_type_def LLONG_MAX_def)
  have b: "is_integer_type (Unsigned 64) \<and> LLONG_MAX < 2 ^ 63"
    by (simp add: is_integer_type_def LLONG_MAX_def)
  have c: "is_char_type (Signed 8) \<and> type_min (Signed 8) \<le> 65 \<and> 65 \<le> type_max (Signed 8)"
    by (simp add: is_char_type_def)
  from from_string_to_string_roundtrip[of "Signed 32" "- 2147483648"] r
  have 1: "from_string (Signed 32) (to_string (Signed 32) (- 2147483648)) = Inr (- 2147483648)"
    by blast
  from from_string_to_string_roundtrip[of "Unsigned 1" 0] z
  have 2: "from_string (Unsigned 1) (to_string (Unsigned 1) 0) = Inr 0" by blast
  from from_string_to_string_roundtrip[of "Unsigned 64" "2 ^ 63"] b
  have 3: "from_string (Unsigned 64) (to_string (Unsigned 64) (2 ^ 63)) = Inl OutOfRange"
    by blast
  from from_string_to_string_roundtrip[of "Signed 8" 65] c
  have 4: "from_string (Signed 8) (to_string (Signed 8) 65) \<noteq> Inr 65" by blast
  from r z b c 1 2 3 4 show ?thesis by blast
qed

lemma example_ranges:
  "type_min (Unsigned 64) \<le> 2 ^ 63 \<and> (2 ^ 63 :: int) \<le> type_max (Unsigned 64)"
  "type_min (Signed 8) \<le> 65 \<and> (65 :: int) \<le> type_max (Signed 8)"
  by simp_all

text \<open>
  C7 as stated fails. \<open>2^63\<close> is a value of \<open>unsigned long long\<close>, and \<open>from_string\<close> of its
  string is the out-of-range error of \<open>stoll\<close>. The character \<open>A\<close> is a value of \<open>char\<close>; its
  string is \<open>A\<close>, in which \<open>stoll\<close> finds no digit. The doubles \<open>1234567\<close> and \<open>1234568\<close>
  have the same string, so that no \<open>from_string\<close> gives back both.
\<close>

theorem from_string_to_string_fails:
  "type_min (Unsigned 64) \<le> 2 ^ 63 \<and> 2 ^ 63 \<le> type_max (Unsigned 64) \<and>
   to_string (Unsigned 64) (2 ^ 63) = ''9223372036854775808'' \<and>
   from_string (Unsigned 64) (to_string (Unsigned 64) (2 ^ 63)) = Inl OutOfRange \<and>
   type_min (Signed 8) \<le> 65 \<and> 65 \<le> type_max (Signed 8) \<and>
   to_string (Signed 8) 65 = ''A'' \<and>
   from_string (Signed 8) (to_string (Signed 8) 65) = Inl InvalidArgument \<and>
   to_string_double 1234567 = ''1.23457e+06'' \<and>
   to_string_double 1234568 = ''1.23457e+06''"
proof -
  have u: "to_string (Unsigned 64) (2 ^ 63) = ''9223372036854775808''"
    by (simp add: to_string_def is_char_type_def decimal_example)
  have o: "from_string (Unsigned 64) (to_string (Unsigned 64) (2 ^ 63)) = Inl OutOfRange"
    by (simp add: from_string_def to_string_def is_char_type_def stoll_decimal LLONG_MAX_def)
  have a: "to_string (Signed 8) 65 = ''A''"
    by (simp add: to_string_def is_char_type_def char_A)
  have "stoll ''A'' = Inl InvalidArgument"
    by (simp add: stoll_def isspace_def strip_sign_def detect_base_def is_digit_def
        digit_val_def)
  with a have i: "from_string (Signed 8) (to_string (Signed 8) 65) = Inl InvalidArgument"
    by (simp add: from_string_def)
  from example_ranges u o a i to_string_double_examples show ?thesis by simp
qed

end
